theory Spec2Isabelle
  imports Complex_Main
begin

section \<open>Shared helpers\<close>

text \<open>
  A board is a Go slice of \<open>int\<close>: index = column, value = row.  Go's \<open>int\<close> is modelled by
  \<open>int\<close>: every value the solvers compute is a row in \<open>[0,N)\<close>, a difference of two rows or
  of two indices, or a count bounded by \<open>N * N\<close>, so no 64-bit operation wraps for any
  \<open>N\<close> a slice can have.  Indices and sizes are \<open>nat\<close>.
\<close>

type_synonym board = "int list"

text \<open>The repository's own \<open>abs\<close> (exhaustive.go).\<close>

definition abs_go :: "int \<Rightarrow> int" where
  "abs_go x = (if x < 0 then - x else x)"

text \<open>Go's builtin \<open>copy(dst, src)\<close>: overwrites the first \<open>min (len dst) (len src)\<close> cells.\<close>

definition copy_go :: "'a list \<Rightarrow> 'a list \<Rightarrow> 'a list" where
  "copy_go dst src = take (length dst) src @ drop (length src) dst"

lemma length_copy_go [simp]: "length (copy_go dst src) = length dst"
  by (simp add: copy_go_def)

lemma copy_go_same_length [simp]: "length src = length dst \<Longrightarrow> copy_go dst src = src"
  by (simp add: copy_go_def)

section \<open>float64\<close>

text \<open>
  A \<open>float64\<close> value is modelled by the real number it denotes (the solvers produce neither
  an infinity nor a NaN: the one division is by a temperature above \<open>minTemp\<close>, and \<open>math.Exp\<close>
  is called on negative arguments only).  Comparison and negation are exact on \<open>float64\<close>, and
  so is the conversion of an \<open>int\<close> below \<open>2^53\<close> in magnitude.  A decimal literal denotes the
  nearest \<open>float64\<close>, which is not the decimal fraction; these are the literals of the solvers.
\<close>

abbreviation f64_0_5 :: real where "f64_0_5 \<equiv> 1 / 2"
abbreviation f64_0_6 :: real where "f64_0_6 \<equiv> 5404319552844595 / 2 ^ 53"
abbreviation f64_0_8 :: real where "f64_0_8 \<equiv> 3602879701896397 / 2 ^ 52"
abbreviation f64_0_99 :: real where "f64_0_99 \<equiv> 4458563631096791 / 2 ^ 52"
abbreviation f64_0_01 :: real where "f64_0_01 \<equiv> 5764607523034235 / 2 ^ 59"
abbreviation f64_0_15 :: real where "f64_0_15 \<equiv> 5404319552844595 / 2 ^ 55"
abbreviation f64_0_85 :: real where "f64_0_85 \<equiv> 7656119366529843 / 2 ^ 53"
abbreviation f64_0_3 :: real where "f64_0_3 \<equiv> 5404319552844595 / 2 ^ 54"

text \<open>
  Division, multiplication and \<open>math.Exp\<close> (a library function, outside the repository) round
  their results, and \<open>math.Exp\<close> returns 0 where the exponential is below every positive
  \<open>float64\<close>.  The model takes the three operations as a parameter \<open>fp\<close> of the simulated-annealing
  solver and assumes nothing about them, so what is proved for every \<open>fp\<close> holds of the
  arithmetic the program runs on.
\<close>

record float64_ops =
  f64_Exp :: "real \<Rightarrow> real"
  f64_div :: "real \<Rightarrow> real \<Rightarrow> real"
  f64_mul :: "real \<Rightarrow> real \<Rightarrow> real"

text \<open>
  An instance of the operations, for the runs evaluated below: division and multiplication
  without rounding, and the exponential with the underflow of \<open>math.Exp\<close>.  Below \<open>-750\<close> the
  exponential is less than \<open>2^-1075\<close>, half the least positive \<open>float64\<close>, and \<open>math.Exp\<close> returns
  0 (it does so for every argument below \<open>-745.14\<close>).  The runs evaluated with this instance
  divide only where \<open>float64\<close> divides without rounding (\<open>-12\<close> by \<open>1/64\<close>, \<open>-1\<close> by 8) and use of
  the exponential only that it is 0 or that it is positive.
\<close>

definition f64_run :: float64_ops where
  "f64_run = \<lparr> f64_Exp = (\<lambda>x. if x < - 750 then 0 else exp x),
               f64_div = (\<lambda>x y. x / y), f64_mul = (\<lambda>x y. x * y) \<rparr>"

section \<open>The random source (Go's math/rand, outside the repository)\<close>

text \<open>
  The solvers draw from the global source of \<open>math/rand\<close>.  The model makes the source an
  explicit argument: an infinite stream of raw draws, consumed one per call and handed on,
  each raw draw deciding the result of one call.  \<open>Intn n\<close> reduces a raw draw to \<open>[0,n)\<close>,
  and \<open>Perm n\<close> is the library's loop (\<open>m[i] = m[j]; m[j] = i\<close> with \<open>j = Intn (i + 1)\<close>).
  \<open>rand.Float64\<close> returns \<open>float64(Int63()) / 2^63\<close>, drawn again while that is 1: its results
  are the 63-bit integers that a \<open>float64\<close> holds exactly, divided by \<open>2^63\<close>, that is the numbers
  \<open>m * 2^s / 2^63\<close> with \<open>m < 2^53\<close> and \<open>s \<le> 10\<close> (the multiples of \<open>2^-53\<close> for \<open>s = 10\<close>,
  and finer values below \<open>1/2\<close>).  A raw draw gives \<open>m\<close> as its residue modulo \<open>2^53\<close> and
  \<open>s\<close> from the digits above.  Every outcome the library can produce is the outcome of some
  stream, so a statement for all streams covers all runs.  \<open>rand.Intn\<close> panics for
  \<open>n \<le> 0\<close>; every call of the solvers passes \<open>N\<close>, the population size or a length
  just checked positive, so the statements below take \<open>N \<ge> 1\<close>.
\<close>

type_synonym rng = "nat \<Rightarrow> nat"

definition rng_tail :: "rng \<Rightarrow> rng" where
  "rng_tail r = (\<lambda>i. r (Suc i))"

definition Intn :: "nat \<Rightarrow> rng \<Rightarrow> nat \<times> rng" where
  "Intn n r = (r 0 mod n, rng_tail r)"

definition Float64 :: "rng \<Rightarrow> real \<times> rng" where
  "Float64 r = (real (r 0 mod 2 ^ 53) * 2 ^ (r 0 div 2 ^ 53 mod 11) / 2 ^ 63, rng_tail r)"

definition Perm :: "nat \<Rightarrow> rng \<Rightarrow> board \<times> rng" where
  "Perm n r =
     fold (\<lambda>i (m, r). let (j, r) = Intn (i + 1) r in (m[i := m ! j, j := int i], r))
       [0 ..< n] (replicate n 0, r)"

text \<open>A stream given by its first draws, all later draws being 0 (for concrete runs).\<close>

definition stream_of :: "nat list \<Rightarrow> rng" where
  "stream_of xs = (\<lambda>i. if i < length xs then xs ! i else 0)"

text \<open>The stream after \<open>k\<close> draws.\<close>

definition rng_drop :: "nat \<Rightarrow> rng \<Rightarrow> rng" where
  "rng_drop k r = (\<lambda>i. r (i + k))"

lemma rng_drop_0 [simp]: "rng_drop 0 r = r"
  by (simp add: rng_drop_def)

lemma rng_tail_drop: "rng_tail (rng_drop k r) = rng_drop (Suc k) r"
  by (simp add: rng_tail_def rng_drop_def)

lemma Intn_drop: "Intn n (rng_drop k r) = (r k mod n, rng_drop (Suc k) r)"
  by (simp add: Intn_def rng_tail_drop) (simp add: rng_drop_def)

lemma stream_of_0 [simp]: "stream_of (x # xs) 0 = x"
  by (simp add: stream_of_def)

lemma stream_of_tail [simp]: "rng_tail (stream_of (x # xs)) = stream_of xs"
  by (auto simp: rng_tail_def stream_of_def)

lemma stream_of_Nil_0 [simp]: "stream_of [] i = 0"
  by (simp add: stream_of_def)

lemma stream_of_Nil_tail [simp]: "rng_tail (stream_of []) = stream_of []"
  by (auto simp: rng_tail_def stream_of_def)

lemma list_update_Cons_numeral:
  "(x # xs)[numeral v := y] = x # xs[numeral v - 1 := y]"
  by (simp add: numeral_eq_Suc)

lemma replicate_numeral: "replicate (numeral v) x = x # replicate (numeral v - 1) x"
  by (simp add: numeral_eq_Suc)

lemma Intn_less: "0 < n \<Longrightarrow> fst (Intn n r) < n"
  by (simp add: Intn_def)

section \<open>The greedy hill-climber: data and objective (greedy.go)\<close>

record GreedySolver =
  g_n :: nat
  g_board :: board
  g_solution :: board
  g_solved :: bool
  g_maxIterations :: nat

definition NewGreedySolver :: "nat \<Rightarrow> GreedySolver" where
  "NewGreedySolver n =
     \<lparr> g_n = n, g_board = replicate n 0, g_solution = [], g_solved = False,
       g_maxIterations = 10000 \<rparr>"

definition countConflicts :: "GreedySolver \<Rightarrow> int" where
  "countConflicts g =
     fold (\<lambda>i conflicts.
        fold (\<lambda>j conflicts.
           let conflicts = (if g_board g ! i = g_board g ! j then conflicts + 1 else conflicts)
           in (if abs_go (g_board g ! i - g_board g ! j) = abs_go (int i - int j)
               then conflicts + 1 else conflicts))
          [i + 1 ..< g_n g] conflicts)
       [0 ..< g_n g] 0"

definition randomInit :: "GreedySolver \<Rightarrow> rng \<Rightarrow> GreedySolver \<times> rng" where
  "randomInit g r =
     fold (\<lambda>i (g, r). let (v, r) = Intn (g_n g) r in (g\<lparr>g_board := (g_board g)[i := int v]\<rparr>, r))
       [0 ..< g_n g] (g, r)"

text \<open>
  One pass of the inner loop body of \<open>Solve\<close>: try the queen of column \<open>col\<close> on row
  \<open>newRow\<close>, recount the whole board, remember the board if it beats the best so far, and
  put the queen back.
\<close>

definition greedy_tryMove ::
  "nat \<Rightarrow> nat \<Rightarrow> GreedySolver \<times> int \<times> board \<Rightarrow> GreedySolver \<times> int \<times> board" where
  "greedy_tryMove col newRow s =
     (case s of (g, bestConflicts, bestBoard) \<Rightarrow>
        if g_board g ! col = int newRow then s
        else
          let originalRow = g_board g ! col;
              g = g\<lparr>g_board := (g_board g)[col := int newRow]\<rparr>;
              newConflicts = countConflicts g;
              (bestConflicts, bestBoard) =
                 (if newConflicts < bestConflicts
                  then (newConflicts, copy_go bestBoard (g_board g))
                  else (bestConflicts, bestBoard));
              g = g\<lparr>g_board := (g_board g)[col := originalRow]\<rparr>
          in (g, bestConflicts, bestBoard))"

definition greedy_sweep :: "GreedySolver \<Rightarrow> int \<Rightarrow> board \<Rightarrow> GreedySolver \<times> int \<times> board" where
  "greedy_sweep g bestConflicts bestBoard =
     fold (\<lambda>col s. fold (\<lambda>newRow s. greedy_tryMove col newRow s) [0 ..< g_n g] s)
       [0 ..< g_n g] (g, bestConflicts, bestBoard)"

text \<open>The part of an iteration after the zero test: sweep, then commit or restart.\<close>

definition greedy_step :: "GreedySolver \<Rightarrow> rng \<Rightarrow> GreedySolver \<times> rng" where
  "greedy_step g r =
     (let conflicts = countConflicts g;
          bestBoard = copy_go (replicate (g_n g) 0) (g_board g);
          bestConflicts = conflicts;
          (g, bestConflicts, bestBoard) = greedy_sweep g bestConflicts bestBoard
      in if bestConflicts \<ge> conflicts then randomInit g r
         else (g\<lparr>g_board := copy_go (g_board g) bestBoard\<rparr>, r))"

lemma randomInit_fold_frame:
  "fold (\<lambda>i (g, r). let (v, r) = Intn (g_n g) r in (g\<lparr>g_board := (g_board g)[i := int v]\<rparr>, r))
       xs (g, r) = (g', r') \<Longrightarrow>
   g_n g' = g_n g \<and> g_maxIterations g' = g_maxIterations g \<and> g_solution g' = g_solution g
   \<and> g_solved g' = g_solved g \<and> length (g_board g') = length (g_board g)"
proof (induction xs arbitrary: g r)
  case Nil
  then show ?case by simp
next
  case (Cons x xs)
  obtain v r1 where d: "Intn (g_n g) r = (v, r1)" by (cases "Intn (g_n g) r")
  from Cons.prems d Cons.IH[of "g\<lparr>g_board := (g_board g)[x := int v]\<rparr>" r1]
  show ?case by simp
qed

lemma randomInit_frame:
  "randomInit g r = (g', r') \<Longrightarrow>
   g_n g' = g_n g \<and> g_maxIterations g' = g_maxIterations g \<and> g_solution g' = g_solution g
   \<and> g_solved g' = g_solved g \<and> length (g_board g') = length (g_board g)"
  unfolding randomInit_def by (rule randomInit_fold_frame)

lemma greedy_tryMove_eq:
  "greedy_tryMove col newRow (g, bc, bb) =
     (g, if g_board g ! col \<noteq> int newRow
            \<and> countConflicts (g\<lparr>g_board := (g_board g)[col := int newRow]\<rparr>) < bc
         then (countConflicts (g\<lparr>g_board := (g_board g)[col := int newRow]\<rparr>),
               copy_go bb ((g_board g)[col := int newRow]))
         else (bc, bb))"
  by (simp add: greedy_tryMove_def Let_def)

lemma greedy_tryMove_fst: "fst (greedy_tryMove col newRow s) = fst s"
  by (cases s) (simp add: greedy_tryMove_eq)

lemma greedy_rows_fst: "fst (fold (\<lambda>newRow s. greedy_tryMove col newRow s) rows s) = fst s"
  by (induction rows arbitrary: s) (simp_all add: greedy_tryMove_fst)

lemma greedy_cols_fst:
  "fst (fold (\<lambda>col s. fold (\<lambda>newRow s. greedy_tryMove col newRow s) rows s) cols s) = fst s"
  by (induction cols arbitrary: s) (simp_all add: greedy_rows_fst)

lemma greedy_sweep_fst: "fst (greedy_sweep g bc bb) = g"
  by (simp add: greedy_sweep_def greedy_cols_fst)

lemma greedy_step_frame:
  "greedy_step g r = (g', r') \<Longrightarrow>
   g_n g' = g_n g \<and> g_maxIterations g' = g_maxIterations g \<and> g_solution g' = g_solution g
   \<and> g_solved g' = g_solved g"
proof -
  assume a: "greedy_step g r = (g', r')"
  obtain g1 bc bb where s: "greedy_sweep g (countConflicts g) (copy_go (replicate (g_n g) 0) (g_board g)) = (g1, bc, bb)"
    by (cases "greedy_sweep g (countConflicts g) (copy_go (replicate (g_n g) 0) (g_board g))")
  have g1: "g1 = g" using greedy_sweep_fst[of g "countConflicts g" "copy_go (replicate (g_n g) 0) (g_board g)"] s by simp
  show ?thesis
  proof (cases "bc \<ge> countConflicts g")
    case True
    with a s g1 have "randomInit g r = (g', r')" by (simp add: greedy_step_def Let_def)
    from randomInit_frame[OF this] show ?thesis by simp
  next
    case False
    with a s g1 have "g' = g\<lparr>g_board := copy_go (g_board g) bb\<rparr>" by (auto simp add: greedy_step_def Let_def)
    then show ?thesis by simp
  qed
qed

function greedy_loop :: "GreedySolver \<Rightarrow> nat \<Rightarrow> rng \<Rightarrow> bool \<times> GreedySolver \<times> rng" where
  "greedy_loop g iter r =
     (if iter < g_maxIterations g then
        (if countConflicts g = 0 then
           (True, g\<lparr>g_solution := copy_go (replicate (g_n g) 0) (g_board g), g_solved := True\<rparr>, r)
         else
           (case greedy_step g r of (g', r') \<Rightarrow> greedy_loop g' (iter + 1) r'))
      else (False, g, r))"
  by pat_completeness auto
termination
  by (relation "measure (\<lambda>(g, iter, r). g_maxIterations g - iter)")
     (auto dest: greedy_step_frame[OF sym])

declare greedy_loop.simps [simp del]

definition greedy_Solve :: "GreedySolver \<Rightarrow> rng \<Rightarrow> bool \<times> GreedySolver \<times> rng" where
  "greedy_Solve g r = (case randomInit g r of (g', r') \<Rightarrow> greedy_loop g' 0 r')"

definition greedy_GetSolution :: "GreedySolver \<Rightarrow> board" where
  "greedy_GetSolution g = g_solution g"

section \<open>The simulated-annealing solver: data and objective (simulated\_annealing.go)\<close>

record SimulatedAnnealingSolver =
  sa_n :: nat
  sa_board :: board
  sa_solution :: board
  sa_solved :: bool
  sa_initialTemp :: real
  sa_coolingRate :: real
  sa_minTemp :: real
  sa_maxIterations :: nat
  sa_restarts :: nat

definition NewSimulatedAnnealingSolver :: "nat \<Rightarrow> SimulatedAnnealingSolver" where
  "NewSimulatedAnnealingSolver n =
     \<lparr> sa_n = n, sa_board = replicate n 0, sa_solution = [], sa_solved = False,
       sa_initialTemp = real (n * n), sa_coolingRate = f64_0_99, sa_minTemp = f64_0_01,
       sa_maxIterations = n * 1000, sa_restarts = 5 \<rparr>"

definition calculateConflictsForPosition :: "SimulatedAnnealingSolver \<Rightarrow> board \<Rightarrow> nat \<Rightarrow> int" where
  "calculateConflictsForPosition sa b col =
     fold (\<lambda>j conflicts.
        if j \<noteq> col then
          let conflicts = (if b ! col = b ! j then conflicts + 1 else conflicts)
          in (if abs_go (b ! col - b ! j) = abs_go (int col - int j)
              then conflicts + 1 else conflicts)
        else conflicts)
       [0 ..< sa_n sa] 0"

definition calculateCostForBoard :: "SimulatedAnnealingSolver \<Rightarrow> board \<Rightarrow> int" where
  "calculateCostForBoard sa b =
     fold (\<lambda>i conflicts.
        fold (\<lambda>j conflicts.
           let conflicts = (if b ! i = b ! j then conflicts + 1 else conflicts)
           in (if abs_go (b ! i - b ! j) = abs_go (int i - int j)
               then conflicts + 1 else conflicts))
          [i + 1 ..< sa_n sa] conflicts)
       [0 ..< sa_n sa] 0"

definition calculateCost :: "SimulatedAnnealingSolver \<Rightarrow> int" where
  "calculateCost sa = calculateCostForBoard sa (sa_board sa)"

definition smartInit :: "SimulatedAnnealingSolver \<Rightarrow> rng \<Rightarrow> SimulatedAnnealingSolver \<times> rng" where
  "smartInit sa r =
     (case Perm (sa_n sa) r of (perm, r) \<Rightarrow> (sa\<lparr>sa_board := copy_go (sa_board sa) perm\<rparr>, r))"

definition findConflictedQueens :: "SimulatedAnnealingSolver \<Rightarrow> nat list" where
  "findConflictedQueens sa =
     fold (\<lambda>i conflicted.
        if calculateConflictsForPosition sa (sa_board sa) i > 0 then conflicted @ [i]
        else conflicted)
       [0 ..< sa_n sa] []"

text \<open>
  The loop \<open>for pos1 == pos2 { pos2 = rand.Intn(sa.n) }\<close> of the swap strategy.  Nothing
  bounds it: it runs until a draw differs from \<open>pos1\<close>, so it is a partial function, with
  \<open>None\<close> for a run that never leaves the loop.
\<close>

partial_function (option) sa_redrawPos2 :: "nat \<Rightarrow> nat \<Rightarrow> nat \<Rightarrow> rng \<Rightarrow> (nat \<times> rng) option" where
  "sa_redrawPos2 n pos1 pos2 r =
     (if pos1 = pos2 then (case Intn n r of (pos2, r) \<Rightarrow> sa_redrawPos2 n pos1 pos2 r)
      else Some (pos2, r))"

text \<open>
  The row scan shared by the second and third strategy: for every row other than the
  column's present one, put the queen there on a scratch copy and count the column's
  conflicts, keeping the first row with the least count below the starting value.
\<close>

definition sa_scanRows ::
  "SimulatedAnnealingSolver \<Rightarrow> board \<Rightarrow> nat \<Rightarrow> int \<times> int \<Rightarrow> int \<times> int" where
  "sa_scanRows sa neighbor col start =
     fold (\<lambda>row (bestRow, minConflicts).
        if int row \<noteq> neighbor ! col then
          let tempBoard = copy_go (replicate (sa_n sa) 0) neighbor;
              tempBoard = tempBoard[col := int row];
              conflicts = calculateConflictsForPosition sa tempBoard col
          in if conflicts < minConflicts then (int row, conflicts) else (bestRow, minConflicts)
        else (bestRow, minConflicts))
       [0 ..< sa_n sa] start"

definition generateSmartNeighbor :: "SimulatedAnnealingSolver \<Rightarrow> rng \<Rightarrow> (board \<times> rng) option" where
  "generateSmartNeighbor sa r =
     (let neighbor = copy_go (replicate (sa_n sa) 0) (sa_board sa);
          (strategy, r) = Float64 r
      in if strategy < f64_0_6 then
           (let (pos1, r) = Intn (sa_n sa) r;
                (pos2, r) = Intn (sa_n sa) r
            in case sa_redrawPos2 (sa_n sa) pos1 pos2 r of
                 None \<Rightarrow> None
               | Some (pos2, r) \<Rightarrow>
                   Some (neighbor[pos1 := neighbor ! pos2, pos2 := neighbor ! pos1], r))
         else if strategy < f64_0_8 then
           (let conflictedQueens = findConflictedQueens sa
            in if length conflictedQueens > 0 then
                 (let (k, r) = Intn (length conflictedQueens) r;
                      col = conflictedQueens ! k;
                      (bestRow, r) = Intn (sa_n sa) r;
                      minConflicts = int (sa_n sa * sa_n sa);
                      (bestRow, minConflicts) = sa_scanRows sa neighbor col (int bestRow, minConflicts)
                  in Some (neighbor[col := bestRow], r))
               else Some (neighbor, r))
         else
           (let (col, r) = Intn (sa_n sa) r;
                bestRow = neighbor ! col;
                minConflicts = calculateConflictsForPosition sa neighbor col;
                (bestRow, minConflicts) = sa_scanRows sa neighbor col (bestRow, minConflicts)
            in Some (neighbor[col := bestRow], r)))"

definition acceptanceProbability ::
  "float64_ops \<Rightarrow> SimulatedAnnealingSolver \<Rightarrow> int \<Rightarrow> real \<Rightarrow> real" where
  "acceptanceProbability fp sa deltaCost temperature =
     f64_Exp fp (f64_div fp (- real_of_int deltaCost) temperature)"

text \<open>
  The acceptance step of an iteration (the cost difference, the test with its short-circuit
  \<open>||\<close>, the move and the update of the best board).  The values are, in this order: the
  solver, \<open>currentCost\<close>, \<open>bestCost\<close>, \<open>bestBoard\<close> and the random source.
\<close>

definition sa_accept ::
  "float64_ops \<Rightarrow> SimulatedAnnealingSolver \<Rightarrow> board \<Rightarrow> int \<Rightarrow> int \<Rightarrow> int \<Rightarrow> board \<Rightarrow> real \<Rightarrow> rng
     \<Rightarrow> SimulatedAnnealingSolver \<times> int \<times> int \<times> board \<times> rng" where
  "sa_accept fp sa neighbor neighborCost currentCost bestCost bestBoard temperature r =
     (let deltaCost = neighborCost - currentCost;
          (accepted, r) =
             (if deltaCost \<le> 0 then (True, r)
              else (case Float64 r of (u, r) \<Rightarrow>
                      (acceptanceProbability fp sa deltaCost temperature > u, r)))
      in if accepted then
           (let sa = sa\<lparr>sa_board := copy_go (sa_board sa) neighbor\<rparr>;
                currentCost = neighborCost
            in if currentCost < bestCost
               then (sa, currentCost, currentCost, copy_go bestBoard (sa_board sa), r)
               else (sa, currentCost, bestCost, bestBoard, r))
         else (sa, currentCost, bestCost, bestBoard, r))"

text \<open>
  The cooling step of an iteration: every 100 iterations a drifted search goes back to the
  best board at half the initial temperature; otherwise the temperature is multiplied by
  the cooling rate.  The values are the solver, \<open>currentCost\<close> and the temperature.
\<close>

definition sa_cool ::
  "float64_ops \<Rightarrow> SimulatedAnnealingSolver \<Rightarrow> nat \<Rightarrow> int \<Rightarrow> int \<Rightarrow> board \<Rightarrow> real
     \<Rightarrow> SimulatedAnnealingSolver \<times> int \<times> real" where
  "sa_cool fp sa iter currentCost bestCost bestBoard temperature =
     (if iter mod 100 = 0 \<and> currentCost > bestCost * 2
      then (sa\<lparr>sa_board := copy_go (sa_board sa) bestBoard\<rparr>, bestCost,
            f64_mul fp (sa_initialTemp sa) f64_0_5)
      else (sa, currentCost, f64_mul fp temperature (sa_coolingRate sa)))"

function sa_loop ::
  "float64_ops \<Rightarrow> SimulatedAnnealingSolver \<Rightarrow> nat \<Rightarrow> real \<Rightarrow> int \<Rightarrow> int \<Rightarrow> board \<Rightarrow> rng
     \<Rightarrow> (bool \<times> SimulatedAnnealingSolver \<times> rng) option" where
  "sa_loop fp sa iter temperature currentCost bestCost bestBoard r =
     (if iter < sa_maxIterations sa \<and> temperature > sa_minTemp sa then
        (if currentCost = 0 then
           Some (True, sa\<lparr>sa_solution := copy_go (replicate (sa_n sa) 0) (sa_board sa),
                          sa_solved := True\<rparr>, r)
         else
           (case generateSmartNeighbor sa r of
              None \<Rightarrow> None
            | Some (neighbor, r) \<Rightarrow>
                (case sa_accept fp sa neighbor (calculateCostForBoard sa neighbor) currentCost
                        bestCost bestBoard temperature r of
                   (sa1, currentCost1, bestCost1, bestBoard1, r1) \<Rightarrow>
                     (case sa_cool fp sa1 iter currentCost1 bestCost1 bestBoard1 temperature of
                        (sa2, currentCost2, temperature2) \<Rightarrow>
                          sa_loop fp sa2 (iter + 1) temperature2 currentCost2 bestCost1 bestBoard1 r1))))
      else
        (let sa = sa\<lparr>sa_board := copy_go (sa_board sa) bestBoard\<rparr>
         in if bestCost = 0 then
              Some (True, sa\<lparr>sa_solution := copy_go (replicate (sa_n sa) 0) bestBoard,
                             sa_solved := True\<rparr>, r)
            else Some (False, sa, r)))"
  by pat_completeness auto
termination
  by (relation "measure (\<lambda>(fp, sa, iter, temperature, currentCost, bestCost, bestBoard, r).
                   sa_maxIterations sa - iter)")
     (auto simp: sa_accept_def sa_cool_def Let_def split: if_splits prod.splits)

definition sa_singleRun ::
  "float64_ops \<Rightarrow> SimulatedAnnealingSolver \<Rightarrow> rng
     \<Rightarrow> (bool \<times> SimulatedAnnealingSolver \<times> rng) option" where
  "sa_singleRun fp sa r =
     (case smartInit sa r of (sa, r) \<Rightarrow>
        (let temperature = sa_initialTemp sa;
             currentCost = calculateCost sa;
             bestCost = currentCost;
             bestBoard = copy_go (replicate (sa_n sa) 0) (sa_board sa)
         in sa_loop fp sa 0 temperature currentCost bestCost bestBoard r))"

declare sa_loop.simps [simp del]

text \<open>What a run never changes: the parameters of the solver.\<close>

definition sa_same_params :: "SimulatedAnnealingSolver \<Rightarrow> SimulatedAnnealingSolver \<Rightarrow> bool" where
  "sa_same_params sa sa' =
     (sa_n sa' = sa_n sa \<and> sa_initialTemp sa' = sa_initialTemp sa
      \<and> sa_coolingRate sa' = sa_coolingRate sa \<and> sa_minTemp sa' = sa_minTemp sa
      \<and> sa_maxIterations sa' = sa_maxIterations sa \<and> sa_restarts sa' = sa_restarts sa)"

lemma sa_same_params_refl [simp]: "sa_same_params sa sa"
  by (simp add: sa_same_params_def)

lemma sa_same_params_trans:
  "sa_same_params a b \<Longrightarrow> sa_same_params b c \<Longrightarrow> sa_same_params a c"
  by (simp add: sa_same_params_def)

lemma sa_same_params_board [simp]: "sa_same_params sa (sa\<lparr>sa_board := b\<rparr>)"
  by (simp add: sa_same_params_def)

lemma sa_accept_params:
  "sa_accept fp sa nb nc cc bc bb t r = (sa', cc', bc', bb', r') \<Longrightarrow> sa_same_params sa sa'"
  by (auto simp: sa_accept_def Let_def split: if_splits prod.splits)

lemma sa_cool_params:
  "sa_cool fp sa iter cc bc bb t = (sa', cc', t') \<Longrightarrow> sa_same_params sa sa'"
  by (auto simp: sa_cool_def split: if_splits)

text \<open>An iteration that goes on to the next one, as the loop computes it.\<close>

lemma sa_loop_continue:
  assumes "iter < sa_maxIterations sa" and "t > sa_minTemp sa" and "cc \<noteq> 0"
    and "generateSmartNeighbor sa r = Some (nb, r0)"
    and "sa_accept fp sa nb (calculateCostForBoard sa nb) cc bc bb t r0 = (sa1, cc1, bc1, bb1, r1)"
    and "sa_cool fp sa1 iter cc1 bc1 bb1 t = (sa2, cc2, t2)"
  shows "sa_loop fp sa iter t cc bc bb r = sa_loop fp sa2 (iter + 1) t2 cc2 bc1 bb1 r1"
  using assms by (subst sa_loop.simps) simp

lemma sa_loop_stuck:
  assumes "iter < sa_maxIterations sa" and "t > sa_minTemp sa" and "cc \<noteq> 0"
    and "generateSmartNeighbor sa r = None"
  shows "sa_loop fp sa iter t cc bc bb r = None"
  using assms by (subst sa_loop.simps) simp

lemma sa_loop_found:
  assumes "iter < sa_maxIterations sa" and "t > sa_minTemp sa" and "cc = 0"
  shows "sa_loop fp sa iter t cc bc bb r
     = Some (True, sa\<lparr>sa_solution := copy_go (replicate (sa_n sa) 0) (sa_board sa),
                       sa_solved := True\<rparr>, r)"
  using assms by (subst sa_loop.simps) simp

lemma sa_loop_exit:
  assumes "\<not> (iter < sa_maxIterations sa \<and> t > sa_minTemp sa)"
  shows "sa_loop fp sa iter t cc bc bb r
     = (if bc = 0
        then Some (True, sa\<lparr>sa_board := copy_go (sa_board sa) bb,
                           sa_solution := copy_go (replicate (sa_n sa) 0) bb,
                           sa_solved := True\<rparr>, r)
        else Some (False, sa\<lparr>sa_board := copy_go (sa_board sa) bb\<rparr>, r))"
  using assms by (subst sa_loop.simps) (auto simp: Let_def)

lemma sa_loop_induct [case_names step]:
  assumes step: "\<And>sa iter t cc bc bb r.
     (\<And>nb r0 sa1 cc1 bc1 bb1 r1 sa2 cc2 t2.
        iter < sa_maxIterations sa \<Longrightarrow> t > sa_minTemp sa \<Longrightarrow> cc \<noteq> 0 \<Longrightarrow>
        generateSmartNeighbor sa r = Some (nb, r0) \<Longrightarrow>
        sa_accept fp sa nb (calculateCostForBoard sa nb) cc bc bb t r0 = (sa1, cc1, bc1, bb1, r1) \<Longrightarrow>
        sa_cool fp sa1 iter cc1 bc1 bb1 t = (sa2, cc2, t2) \<Longrightarrow>
        P sa2 (iter + 1) t2 cc2 bc1 bb1 r1) \<Longrightarrow>
     P sa iter t cc bc bb r"
  shows "P sa iter t cc bc bb r"
proof (induction "sa_maxIterations sa - iter" arbitrary: sa iter t cc bc bb r rule: less_induct)
  case (less sa iter t cc bc bb r)
  show ?case
  proof (rule step)
    fix nb :: board and r0 r1 :: rng and sa1 sa2 :: SimulatedAnnealingSolver
      and cc1 bc1 cc2 :: int and bb1 :: board and t2 :: real
    assume lt: "iter < sa_maxIterations sa"
      and acc: "sa_accept fp sa nb (calculateCostForBoard sa nb) cc bc bb t r0 = (sa1, cc1, bc1, bb1, r1)"
      and cool: "sa_cool fp sa1 iter cc1 bc1 bb1 t = (sa2, cc2, t2)"
    have "sa_same_params sa sa2"
      using sa_accept_params[OF acc] sa_cool_params[OF cool]
      by (blast intro: sa_same_params_trans)
    with lt have "sa_maxIterations sa2 - (iter + 1) < sa_maxIterations sa - iter"
      by (simp add: sa_same_params_def)
    then show "P sa2 (iter + 1) t2 cc2 bc1 bb1 r1" by (rule less)
  qed
qed

lemma sa_loop_params:
  "sa_loop fp sa iter t cc bc bb r = Some (found, sa', r') \<Longrightarrow> sa_same_params sa sa'"
proof (induction sa iter t cc bc bb r rule: sa_loop_induct[where fp = fp])
  case (step sa iter t cc bc bb r)
  consider (exit) "\<not> (iter < sa_maxIterations sa \<and> t > sa_minTemp sa)"
    | (found) "iter < sa_maxIterations sa" "t > sa_minTemp sa" "cc = 0"
    | (continue) "iter < sa_maxIterations sa" "t > sa_minTemp sa" "cc \<noteq> 0"
    by blast
  then show ?case
  proof cases
    case exit
    from step.prems show ?thesis
      unfolding sa_loop_exit[OF exit] by (auto simp: sa_same_params_def split: if_splits)
  next
    case found
    from step.prems show ?thesis
      unfolding sa_loop_found[OF found] by (auto simp: sa_same_params_def)
  next
    case continue
    show ?thesis
    proof (cases "generateSmartNeighbor sa r")
      case None
      from step.prems show ?thesis unfolding sa_loop_stuck[OF continue None] by simp
    next
      case (Some p)
      obtain nb r0 where gen: "generateSmartNeighbor sa r = Some (nb, r0)"
        using Some by (cases p) simp
      obtain sa1 cc1 bc1 bb1 r1 where
        acc: "sa_accept fp sa nb (calculateCostForBoard sa nb) cc bc bb t r0 = (sa1, cc1, bc1, bb1, r1)"
        by (cases "sa_accept fp sa nb (calculateCostForBoard sa nb) cc bc bb t r0")
      obtain sa2 cc2 t2 where cool: "sa_cool fp sa1 iter cc1 bc1 bb1 t = (sa2, cc2, t2)"
        by (cases "sa_cool fp sa1 iter cc1 bc1 bb1 t")
      from step.prems
      have rec: "sa_loop fp sa2 (iter + 1) t2 cc2 bc1 bb1 r1 = Some (found, sa', r')"
        unfolding sa_loop_continue[OF continue gen acc cool] .
      have "sa_same_params sa2 sa'"
        by (rule step.IH[OF continue gen acc cool rec])
      with sa_accept_params[OF acc] sa_cool_params[OF cool] show ?thesis
        by (blast intro: sa_same_params_trans)
    qed
  qed
qed

lemma smartInit_params: "smartInit sa r = (sa', r') \<Longrightarrow> sa_same_params sa sa'"
  by (auto simp: smartInit_def split: prod.splits)

lemma sa_singleRun_params:
  "sa_singleRun fp sa r = Some (found, sa', r') \<Longrightarrow> sa_same_params sa sa'"
proof -
  assume a: "sa_singleRun fp sa r = Some (found, sa', r')"
  obtain sa0 r0 where i: "smartInit sa r = (sa0, r0)" by (cases "smartInit sa r")
  from a i have "sa_loop fp sa0 0 (sa_initialTemp sa0) (calculateCost sa0) (calculateCost sa0)
       (copy_go (replicate (sa_n sa0) 0) (sa_board sa0)) r0 = Some (found, sa', r')"
    by (simp add: sa_singleRun_def Let_def)
  from sa_loop_params[OF this] smartInit_params[OF i] show ?thesis
    by (blast intro: sa_same_params_trans)
qed

function sa_restartLoop ::
  "float64_ops \<Rightarrow> SimulatedAnnealingSolver \<Rightarrow> nat \<Rightarrow> rng
     \<Rightarrow> (bool \<times> SimulatedAnnealingSolver \<times> rng) option" where
  "sa_restartLoop fp sa restart r =
     (if restart < sa_restarts sa then
        (case sa_singleRun fp sa r of
           None \<Rightarrow> None
         | Some (found, sa', r') \<Rightarrow>
             if found then Some (True, sa', r') else sa_restartLoop fp sa' (restart + 1) r')
      else Some (False, sa, r))"
  by pat_completeness auto
termination
  by (relation "measure (\<lambda>(fp, sa, restart, r). sa_restarts sa - restart)")
     (auto dest!: sa_singleRun_params simp: sa_same_params_def)

declare sa_restartLoop.simps [simp del]

definition sa_Solve ::
  "float64_ops \<Rightarrow> SimulatedAnnealingSolver \<Rightarrow> rng \<Rightarrow> (bool \<times> SimulatedAnnealingSolver \<times> rng) option" where
  "sa_Solve fp sa r = sa_restartLoop fp sa 0 r"

definition sa_GetSolution :: "SimulatedAnnealingSolver \<Rightarrow> board" where
  "sa_GetSolution sa = sa_solution sa"

section \<open>The genetic solver: data and objective (genetic.go)\<close>

record Individual =
  chromosome :: board
  fitness :: int

record GeneticSolver =
  ga_n :: nat
  ga_populationSize :: nat
  ga_maxGenerations :: nat
  ga_mutationRate :: real
  ga_crossoverRate :: real
  ga_population :: "Individual list"
  ga_solution :: board
  ga_solved :: bool
  ga_restarts :: nat

definition calculateFitness :: "GeneticSolver \<Rightarrow> board \<Rightarrow> int" where
  "calculateFitness ga c =
     fold (\<lambda>i conflicts.
        fold (\<lambda>j conflicts.
           let conflicts = (if c ! i = c ! j then conflicts + 1 else conflicts)
           in (if abs_go (c ! i - c ! j) = abs_go (int i - int j)
               then conflicts + 1 else conflicts))
          [i + 1 ..< ga_n ga] conflicts)
       [0 ..< ga_n ga] 0"

definition ga_calculateConflictsForPosition :: "GeneticSolver \<Rightarrow> board \<Rightarrow> nat \<Rightarrow> int" where
  "ga_calculateConflictsForPosition ga c col =
     fold (\<lambda>j conflicts.
        if j \<noteq> col then
          let conflicts = (if c ! col = c ! j then conflicts + 1 else conflicts)
          in (if abs_go (c ! col - c ! j) = abs_go (int col - int j)
              then conflicts + 1 else conflicts)
        else conflicts)
       [0 ..< ga_n ga] 0"

definition NewGeneticSolver :: "nat \<Rightarrow> GeneticSolver" where
  "NewGeneticSolver n =
     (let popSize = 80;
          popSize = (if n > 20 then 120 else popSize);
          popSize = (if n > 40 then 150 else popSize)
      in \<lparr> ga_n = n, ga_populationSize = popSize, ga_maxGenerations = 200,
           ga_mutationRate = f64_0_15, ga_crossoverRate = f64_0_85,
           ga_population = replicate popSize \<lparr> chromosome = [], fitness = 0 \<rparr>,
           ga_solution = [], ga_solved = False, ga_restarts = 5 \<rparr>)"

definition initializeIndividual :: "GeneticSolver \<Rightarrow> nat \<Rightarrow> rng \<Rightarrow> GeneticSolver \<times> rng" where
  "initializeIndividual ga index r =
     (let chromosome = replicate (ga_n ga) 0;
          (perm, r) = Perm (ga_n ga) r;
          chromosome = copy_go chromosome perm
      in (ga\<lparr>ga_population :=
               (ga_population ga)[index := \<lparr> chromosome = chromosome, fitness = 0 \<rparr>]\<rparr>, r))"

definition initializePopulation :: "GeneticSolver \<Rightarrow> rng \<Rightarrow> GeneticSolver \<times> rng" where
  "initializePopulation ga r =
     fold (\<lambda>i (ga, r). initializeIndividual ga i r) [0 ..< ga_populationSize ga] (ga, r)"

text \<open>
  \<open>sort.Slice\<close> (library code, outside the repository) rearranges the population so that
  \<open>less\<close>, here \<open>fitness\<close> below \<open>fitness\<close>, never holds of an element and one before it.  It
  is not stable: the order it leaves among individuals of equal fitness is its own.  The
  model takes the sort as a parameter \<open>srt\<close> of the genetic solver; \<open>sorts_by_fitness\<close> is what
  the library promises of it, a rearrangement in ascending order of fitness, and is all the
  statements below assume.
\<close>

type_synonym slice_sort = "Individual list \<Rightarrow> Individual list"

definition sorts_by_fitness :: "slice_sort \<Rightarrow> bool" where
  "sorts_by_fitness srt =
     (\<forall>xs. (\<forall>x. count_list (srt xs) x = count_list xs x) \<and> sorted (map fitness (srt xs)))"

definition evaluatePopulation :: "slice_sort \<Rightarrow> GeneticSolver \<Rightarrow> GeneticSolver" where
  "evaluatePopulation srt ga =
     (let ga = fold (\<lambda>i ga.
                  ga\<lparr>ga_population := (ga_population ga)
                       [i := (ga_population ga ! i)
                               \<lparr>fitness := calculateFitness ga (chromosome (ga_population ga ! i))\<rparr>]\<rparr>)
                [0 ..< ga_populationSize ga] ga
      in ga\<lparr>ga_population := srt (ga_population ga)\<rparr>)"

definition tournamentSelection :: "GeneticSolver \<Rightarrow> rng \<Rightarrow> Individual \<times> rng" where
  "tournamentSelection ga r =
     (let tournamentSize = 5;
          tournamentSize = (if tournamentSize > ga_populationSize ga
                            then ga_populationSize ga else tournamentSize);
          (k, r) = Intn (ga_populationSize ga) r;
          best = ga_population ga ! k
      in fold (\<lambda>i (best, r).
                 let (k, r) = Intn (ga_populationSize ga) r;
                     candidate = ga_population ga ! k
                 in if fitness candidate < fitness best then (candidate, r) else (best, r))
           [1 ..< tournamentSize] (best, r))"

text \<open>
  Order crossover.  \<open>used\<close> is the Go map \<open>map[int]bool\<close>: a key never stored reads as
  \<open>false\<close>.  The first loop copies the segment, the second fills from \<open>parent2\<close>.
\<close>

definition ox_copySegment ::
  "board \<Rightarrow> nat \<Rightarrow> nat \<Rightarrow> board \<times> (int \<Rightarrow> bool) \<Rightarrow> board \<times> (int \<Rightarrow> bool)" where
  "ox_copySegment parent1 start end s =
     fold (\<lambda>i (child, used). (child[i := parent1 ! i], used(parent1 ! i := True)))
       [start ..< end + 1] s"

definition ox_fill ::
  "nat \<Rightarrow> board \<Rightarrow> nat \<Rightarrow> (int \<Rightarrow> bool) \<Rightarrow> board \<times> nat \<Rightarrow> board \<times> nat" where
  "ox_fill n parent2 end used s =
     fold (\<lambda>i (child, childIndex).
        let parent2Index = (end + 1 + i) mod n
        in if \<not> used (parent2 ! parent2Index)
           then (child[childIndex := parent2 ! parent2Index], (childIndex + 1) mod n)
           else (child, childIndex))
       [0 ..< n] s"

definition orderCrossover :: "GeneticSolver \<Rightarrow> board \<Rightarrow> board \<Rightarrow> rng \<Rightarrow> board \<times> rng" where
  "orderCrossover ga parent1 parent2 r =
     (let child = replicate (ga_n ga) 0;
          (start, r) = Intn (ga_n ga) r;
          (end, r) = Intn (ga_n ga) r;
          (start, end) = (if start > end then (end, start) else (start, end));
          (child, used) = ox_copySegment parent1 start end (child, \<lambda>_. False);
          childIndex = (end + 1) mod ga_n ga;
          (child, childIndex) = ox_fill (ga_n ga) parent2 end used (child, childIndex)
      in (child, r))"

definition smartCrossover :: "GeneticSolver \<Rightarrow> Individual \<Rightarrow> Individual \<Rightarrow> rng \<Rightarrow> board \<times> rng" where
  "smartCrossover ga parent1 parent2 r = orderCrossover ga (chromosome parent1) (chromosome parent2) r"

text \<open>The three tries of the conflict-directed mutation, on the chromosome (changed and put
  back at each try), \<open>bestRow\<close>, \<open>minConflicts\<close> and the random source.\<close>

definition ga_tryRows ::
  "GeneticSolver \<Rightarrow> nat \<Rightarrow> board \<times> int \<times> int \<times> rng \<Rightarrow> board \<times> int \<times> int \<times> rng" where
  "ga_tryRows ga col s =
     fold (\<lambda>attempts (c, bestRow, minConflicts, r).
        let (testRow, r) = Intn (ga_n ga) r
        in if int testRow \<noteq> c ! col then
             let originalRow = c ! col;
                 c = c[col := int testRow];
                 conflicts = ga_calculateConflictsForPosition ga c col;
                 (bestRow, minConflicts) =
                    (if conflicts < minConflicts then (int testRow, conflicts)
                     else (bestRow, minConflicts));
                 c = c[col := originalRow]
             in (c, bestRow, minConflicts, r)
           else (c, bestRow, minConflicts, r))
       [0 ..< 3] s"

definition smartMutation :: "GeneticSolver \<Rightarrow> board \<Rightarrow> rng \<Rightarrow> board \<times> rng" where
  "smartMutation ga c r =
     (let (strategy, r) = Float64 r
      in if strategy < f64_0_5 then
           (let (pos1, r) = Intn (ga_n ga) r;
                (pos2, r) = Intn (ga_n ga) r
            in (c[pos1 := c ! pos2, pos2 := c ! pos1], r))
         else if strategy < f64_0_8 then
           (let conflicts = filter (\<lambda>i. ga_calculateConflictsForPosition ga c i > 0) [0 ..< ga_n ga]
            in if length conflicts > 0 then
                 (let (k, r) = Intn (length conflicts) r;
                      col = conflicts ! k;
                      bestRow = c ! col;
                      minConflicts = ga_calculateConflictsForPosition ga c col;
                      (c, bestRow, minConflicts, r) = ga_tryRows ga col (c, bestRow, minConflicts, r)
                  in (c[col := bestRow], r))
               else
                 (let (pos, r) = Intn (ga_n ga) r;
                      (v, r) = Intn (ga_n ga) r
                  in (c[pos := int v], r)))
         else
           (let (pos, r) = Intn (ga_n ga) r;
                (v, r) = Intn (ga_n ga) r
            in (c[pos := int v], r)))"

text \<open>One slot of the new generation beyond the elite.\<close>

definition ga_breed :: "GeneticSolver \<Rightarrow> rng \<Rightarrow> Individual \<times> rng" where
  "ga_breed ga r =
     (let (u, r) = Float64 r
      in if u < ga_crossoverRate ga then
           (let (parent1, r) = tournamentSelection ga r;
                (parent2, r) = tournamentSelection ga r;
                (child, r) = smartCrossover ga parent1 parent2 r;
                (m, r) = Float64 r;
                (child, r) = (if m < ga_mutationRate ga then smartMutation ga child r else (child, r))
            in (\<lparr> chromosome = child, fitness = 0 \<rparr>, r))
         else
           (let (parent, r) = tournamentSelection ga r;
                child = copy_go (replicate (ga_n ga) 0) (chromosome parent);
                (m, r) = Float64 r;
                (child, r) = (if m < ga_mutationRate ga then smartMutation ga child r else (child, r))
            in (\<lparr> chromosome = child, fitness = 0 \<rparr>, r)))"

definition createNewGeneration :: "GeneticSolver \<Rightarrow> rng \<Rightarrow> Individual list \<times> rng" where
  "createNewGeneration ga r =
     (let newPopulation = replicate (ga_populationSize ga) \<lparr> chromosome = [], fitness = 0 \<rparr>;
          eliteSize = ga_populationSize ga div 10;
          eliteSize = (if eliteSize < 2 then 2 else eliteSize);
          eliteSize = (if eliteSize > 10 then 10 else eliteSize);
          newPopulation =
            fold (\<lambda>i newPopulation.
                    newPopulation[i :=
                      \<lparr> chromosome = copy_go (replicate (ga_n ga) 0) (chromosome (ga_population ga ! i)),
                        fitness = fitness (ga_population ga ! i) \<rparr>])
              [0 ..< eliteSize] newPopulation
      in fold (\<lambda>i (newPopulation, r).
                 let (child, r) = ga_breed ga r in (newPopulation[i := child], r))
           [eliteSize ..< ga_populationSize ga] (newPopulation, r))"

text \<open>The adaptive step of a generation: the mutation rate, and under stagnation fresh
  random individuals in the last fifth of the population.\<close>

definition ga_adapt :: "GeneticSolver \<Rightarrow> nat \<Rightarrow> rng \<Rightarrow> GeneticSolver \<times> rng" where
  "ga_adapt ga generationsWithoutImprovement r =
     (if generationsWithoutImprovement > 20 then
        fold (\<lambda>i (ga, r). initializeIndividual ga i r)
          [ga_populationSize ga * 4 div 5 ..< ga_populationSize ga]
          (ga\<lparr>ga_mutationRate := f64_0_3\<rparr>, r)
      else (ga\<lparr>ga_mutationRate := f64_0_15\<rparr>, r))"

text \<open>The check after the generation loop.\<close>

definition ga_finalCheck :: "slice_sort \<Rightarrow> GeneticSolver \<Rightarrow> rng \<Rightarrow> bool \<times> GeneticSolver \<times> rng" where
  "ga_finalCheck srt ga r =
     (let ga = evaluatePopulation srt ga
      in if fitness (ga_population ga ! 0) = 0 then
           (True, ga\<lparr>ga_solution := copy_go (replicate (ga_n ga) 0) (chromosome (ga_population ga ! 0)),
                     ga_solved := True\<rparr>, r)
         else (False, ga, r))"

text \<open>What a run never changes: the parameters of the solver other than the mutation rate.\<close>

definition ga_same_params :: "GeneticSolver \<Rightarrow> GeneticSolver \<Rightarrow> bool" where
  "ga_same_params ga ga' =
     (ga_n ga' = ga_n ga \<and> ga_populationSize ga' = ga_populationSize ga
      \<and> ga_maxGenerations ga' = ga_maxGenerations ga \<and> ga_crossoverRate ga' = ga_crossoverRate ga
      \<and> ga_restarts ga' = ga_restarts ga)"

lemma ga_same_params_refl [simp]: "ga_same_params ga ga"
  by (simp add: ga_same_params_def)

lemma ga_same_params_trans:
  "ga_same_params a b \<Longrightarrow> ga_same_params b c \<Longrightarrow> ga_same_params a c"
  by (simp add: ga_same_params_def)

lemma initializeIndividual_params:
  "initializeIndividual ga i r = (ga', r') \<Longrightarrow> ga_same_params ga ga'"
  by (auto simp: initializeIndividual_def Let_def ga_same_params_def split: prod.splits)

lemma initializeIndividual_fold_params:
  "fold (\<lambda>i (ga, r). initializeIndividual ga i r) xs (ga, r) = (ga', r') \<Longrightarrow> ga_same_params ga ga'"
proof (induction xs arbitrary: ga r)
  case Nil
  then show ?case by simp
next
  case (Cons x xs)
  obtain ga1 r1 where i: "initializeIndividual ga x r = (ga1, r1)"
    by (cases "initializeIndividual ga x r")
  with Cons.prems have "fold (\<lambda>i (ga, r). initializeIndividual ga i r) xs (ga1, r1) = (ga', r')"
    by simp
  from Cons.IH[OF this] initializeIndividual_params[OF i] show ?case
    by (blast intro: ga_same_params_trans)
qed

lemma initializePopulation_params:
  "initializePopulation ga r = (ga', r') \<Longrightarrow> ga_same_params ga ga'"
  unfolding initializePopulation_def by (rule initializeIndividual_fold_params)

lemma evaluate_fold_params:
  "ga_same_params ga
     (fold (\<lambda>i ga.
          ga\<lparr>ga_population := (ga_population ga)
               [i := (ga_population ga ! i)
                       \<lparr>fitness := calculateFitness ga (chromosome (ga_population ga ! i))\<rparr>]\<rparr>)
        xs ga)"
proof (induction xs arbitrary: ga)
  case Nil
  show ?case by simp
next
  case (Cons x xs)
  let ?ga1 = "ga\<lparr>ga_population := (ga_population ga)
               [x := (ga_population ga ! x)
                       \<lparr>fitness := calculateFitness ga (chromosome (ga_population ga ! x))\<rparr>]\<rparr>"
  have "ga_same_params ga ?ga1" by (simp add: ga_same_params_def)
  with Cons.IH[of ?ga1] show ?case by (auto intro: ga_same_params_trans)
qed

lemma evaluatePopulation_params: "ga_same_params ga (evaluatePopulation srt ga)"
proof -
  have "\<And>g. ga_same_params g (g\<lparr>ga_population := srt (ga_population g)\<rparr>)"
    by (simp add: ga_same_params_def)
  with evaluate_fold_params[of ga "[0 ..< ga_populationSize ga]"] show ?thesis
    unfolding evaluatePopulation_def Let_def by (blast intro: ga_same_params_trans)
qed

lemma ga_adapt_params: "ga_adapt ga k r = (ga', r') \<Longrightarrow> ga_same_params ga ga'"
proof -
  assume a: "ga_adapt ga k r = (ga', r')"
  have m: "\<And>x. ga_same_params ga (ga\<lparr>ga_mutationRate := x\<rparr>)" by (simp add: ga_same_params_def)
  show ?thesis
  proof (cases "k > 20")
    case True
    with a have "fold (\<lambda>i (ga, r). initializeIndividual ga i r)
          [ga_populationSize ga * 4 div 5 ..< ga_populationSize ga]
          (ga\<lparr>ga_mutationRate := f64_0_3\<rparr>, r) = (ga', r')"
      by (simp add: ga_adapt_def)
    from initializeIndividual_fold_params[OF this] m show ?thesis
      by (blast intro: ga_same_params_trans)
  next
    case False
    with a m show ?thesis by (auto simp: ga_adapt_def)
  qed
qed

lemma ga_breed_fold_length:
  "fold (\<lambda>i (newPopulation, r).
                 let (child, r) = ga_breed ga r in (newPopulation[i := child], r)) xs (p, r) = (p', r')
   \<Longrightarrow> length p' = length p"
proof (induction xs arbitrary: p r)
  case Nil
  then show ?case by simp
next
  case (Cons x xs)
  obtain c r1 where b: "ga_breed ga r = (c, r1)" by (cases "ga_breed ga r")
  with Cons.prems have "fold (\<lambda>i (newPopulation, r).
                 let (child, r) = ga_breed ga r in (newPopulation[i := child], r)) xs (p[x := c], r1) = (p', r')"
    by simp
  from Cons.IH[OF this] show ?case by simp
qed

lemma elite_fold_length:
  "length (fold (\<lambda>i newPopulation.
                    newPopulation[i :=
                      \<lparr> chromosome = copy_go (replicate (ga_n ga) 0) (chromosome (ga_population ga ! i)),
                        fitness = fitness (ga_population ga ! i) \<rparr>]) xs p) = length p"
  by (induction xs arbitrary: p) simp_all

lemma createNewGeneration_length:
  "createNewGeneration ga r = (p, r') \<Longrightarrow> length p = ga_populationSize ga"
proof -
  assume a: "createNewGeneration ga r = (p, r')"
  from ga_breed_fold_length[unfolded Let_def, OF a[unfolded createNewGeneration_def Let_def]]
  show ?thesis by (simp add: elite_fold_length)
qed

function ga_loop ::
  "slice_sort \<Rightarrow> GeneticSolver \<Rightarrow> nat \<Rightarrow> nat \<Rightarrow> int \<Rightarrow> rng \<Rightarrow> bool \<times> GeneticSolver \<times> rng" where
  "ga_loop srt ga generation generationsWithoutImprovement bestFitnessEver r =
     (if generation < ga_maxGenerations ga then
        (let ga = evaluatePopulation srt ga
         in if fitness (ga_population ga ! 0) = 0 then
              (True, ga\<lparr>ga_solution := copy_go (replicate (ga_n ga) 0) (chromosome (ga_population ga ! 0)),
                        ga_solved := True\<rparr>, r)
            else
              (let currentBest = fitness (ga_population ga ! 0);
                   (bestFitnessEver, generationsWithoutImprovement) =
                      (if currentBest < bestFitnessEver then (currentBest, 0)
                       else (bestFitnessEver, generationsWithoutImprovement + 1))
               in if generationsWithoutImprovement > 50 then ga_finalCheck srt ga r
                  else
                    (case ga_adapt ga generationsWithoutImprovement r of (ga, r) \<Rightarrow>
                       (case createNewGeneration ga r of (newPopulation, r) \<Rightarrow>
                          ga_loop srt (ga\<lparr>ga_population := newPopulation\<rparr>) (generation + 1)
                            generationsWithoutImprovement bestFitnessEver r))))
      else ga_finalCheck srt ga r)"
  by pat_completeness auto
termination
proof (relation "measure (\<lambda>(srt, ga, generation, k, b, r). ga_maxGenerations ga - generation)",
    goal_cases)
  case 1
  show ?case by simp
next
  case (2 srt ga generation gwi bfe r x xa xb xaa y xab ya xc yb)
  have "ga_same_params (evaluatePopulation srt ga) xab"
    using ga_adapt_params[OF 2(8)[symmetric]] 2(2) by simp
  with evaluatePopulation_params[of ga] 2(1) show ?case
    by (simp add: ga_same_params_def)
qed

declare ga_loop.simps [simp del]

lemma ga_finalCheck_params:
  "ga_finalCheck srt ga r = (found, ga', r') \<Longrightarrow> ga_same_params ga ga'"
proof -
  assume a: "ga_finalCheck srt ga r = (found, ga', r')"
  let ?e = "evaluatePopulation srt ga"
  from a have "ga' = ?e \<or> ga' = ?e\<lparr>ga_solution := copy_go (replicate (ga_n ?e) 0)
        (chromosome (ga_population ?e ! 0)), ga_solved := True\<rparr>"
    by (auto simp: ga_finalCheck_def Let_def split: if_splits)
  then have "ga_same_params ?e ga'" by (auto simp: ga_same_params_def)
  with evaluatePopulation_params[of ga] show ?thesis by (blast intro: ga_same_params_trans)
qed

lemma ga_loop_unfold:
  "ga_loop srt ga g k b r =
     (if g < ga_maxGenerations ga then
        (if fitness (ga_population (evaluatePopulation srt ga) ! 0) = 0 then
           (True, (evaluatePopulation srt ga)
                    \<lparr>ga_solution := copy_go (replicate (ga_n (evaluatePopulation srt ga)) 0)
                        (chromosome (ga_population (evaluatePopulation srt ga) ! 0)),
                     ga_solved := True\<rparr>, r)
         else if (if fitness (ga_population (evaluatePopulation srt ga) ! 0) < b then 0 else k + 1) > 50
         then ga_finalCheck srt (evaluatePopulation srt ga) r
         else
           (case ga_adapt (evaluatePopulation srt ga)
                   (if fitness (ga_population (evaluatePopulation srt ga) ! 0) < b then 0 else k + 1) r of
              (ga1, r1) \<Rightarrow>
                (case createNewGeneration ga1 r1 of
                   (np, r2) \<Rightarrow>
                     ga_loop srt (ga1\<lparr>ga_population := np\<rparr>) (g + 1)
                       (if fitness (ga_population (evaluatePopulation srt ga) ! 0) < b then 0 else k + 1)
                       (if fitness (ga_population (evaluatePopulation srt ga) ! 0) < b
                        then fitness (ga_population (evaluatePopulation srt ga) ! 0) else b) r2)))
      else ga_finalCheck srt ga r)"
  by (simp add: ga_loop.simps[of srt ga g k b r] Let_def split: prod.splits)

lemma ga_loop_induct [case_names step]:
  assumes step: "\<And>ga g k b r.
     (\<And>ga1 r1 np r2 k' b'.
        g < ga_maxGenerations ga \<Longrightarrow>
        fitness (ga_population (evaluatePopulation srt ga) ! 0) \<noteq> 0 \<Longrightarrow>
        k' = (if fitness (ga_population (evaluatePopulation srt ga) ! 0) < b then 0 else k + 1) \<Longrightarrow>
        b' = (if fitness (ga_population (evaluatePopulation srt ga) ! 0) < b
              then fitness (ga_population (evaluatePopulation srt ga) ! 0) else b) \<Longrightarrow>
        \<not> k' > 50 \<Longrightarrow>
        ga_adapt (evaluatePopulation srt ga) k' r = (ga1, r1) \<Longrightarrow>
        createNewGeneration ga1 r1 = (np, r2) \<Longrightarrow>
        P (ga1\<lparr>ga_population := np\<rparr>) (g + 1) k' b' r2) \<Longrightarrow>
     P ga g k b r"
  shows "P ga g k b r"
proof (induction "ga_maxGenerations ga - g" arbitrary: ga g k b r rule: less_induct)
  case (less ga g k b r)
  show ?case
  proof (rule step)
    fix ga1 :: GeneticSolver and r1 r2 :: rng and np :: "Individual list" and k' :: nat and b' :: int
    assume lt: "g < ga_maxGenerations ga"
      and ad: "ga_adapt (evaluatePopulation srt ga) k' r = (ga1, r1)"
    have "ga_same_params ga ga1"
      using evaluatePopulation_params[of ga] ga_adapt_params[OF ad]
      by (blast intro: ga_same_params_trans)
    then have "ga_maxGenerations (ga1\<lparr>ga_population := np\<rparr>) = ga_maxGenerations ga"
      by (simp add: ga_same_params_def)
    with lt have "ga_maxGenerations (ga1\<lparr>ga_population := np\<rparr>) - (g + 1) < ga_maxGenerations ga - g"
      by simp
    then show "P (ga1\<lparr>ga_population := np\<rparr>) (g + 1) k' b' r2" by (rule less)
  qed
qed

lemma ga_loop_params:
  "ga_loop srt ga g k b r = (found, ga', r') \<Longrightarrow> ga_same_params ga ga'"
proof (induction ga g k b r rule: ga_loop_induct[where srt = srt])
  case (step ga g k b r)
  let ?e = "evaluatePopulation srt ga"
  let ?f = "fitness (ga_population ?e ! 0)"
  let ?k = "if ?f < b then 0 else k + 1"
  let ?b = "if ?f < b then ?f else b"
  note e = evaluatePopulation_params[of ga]
  consider (final) "\<not> g < ga_maxGenerations ga"
    | (found) "g < ga_maxGenerations ga" "?f = 0"
    | (stuck) "g < ga_maxGenerations ga" "?f \<noteq> 0" "?k > 50"
    | (continue) "g < ga_maxGenerations ga" "?f \<noteq> 0" "\<not> ?k > 50"
    by blast
  then show ?case
  proof cases
    case final
    with step.prems have "ga_finalCheck srt ga r = (found, ga', r')"
      by (simp add: ga_loop_unfold[of srt ga g k b r])
    then show ?thesis by (rule ga_finalCheck_params)
  next
    case found
    with step.prems have "ga' = ?e\<lparr>ga_solution := copy_go (replicate (ga_n ?e) 0)
                        (chromosome (ga_population ?e ! 0)), ga_solved := True\<rparr>"
      by (simp add: ga_loop_unfold[of srt ga g k b r])
    then have "ga_same_params ?e ga'" by (simp add: ga_same_params_def)
    with e show ?thesis by (blast intro: ga_same_params_trans)
  next
    case stuck
    with step.prems have "ga_finalCheck srt ?e r = (found, ga', r')"
      by (simp add: ga_loop_unfold[of srt ga g k b r])
    from ga_finalCheck_params[OF this] e show ?thesis by (blast intro: ga_same_params_trans)
  next
    case continue
    obtain ga1 r1 where ad: "ga_adapt ?e ?k r = (ga1, r1)" by (cases "ga_adapt ?e ?k r")
    obtain np r2 where cn: "createNewGeneration ga1 r1 = (np, r2)"
      by (cases "createNewGeneration ga1 r1")
    from continue ad cn step.prems
    have rec: "ga_loop srt (ga1\<lparr>ga_population := np\<rparr>) (g + 1) ?k ?b r2 = (found, ga', r')"
      by (simp add: ga_loop_unfold[of srt ga g k b r])
    have "ga_same_params (ga1\<lparr>ga_population := np\<rparr>) ga'"
      by (rule step.IH[OF continue(1,2) refl refl continue(3) ad cn rec])
    moreover have "ga_same_params ga1 (ga1\<lparr>ga_population := np\<rparr>)"
      by (simp add: ga_same_params_def)
    ultimately show ?thesis using e ga_adapt_params[OF ad]
      by (blast intro: ga_same_params_trans)
  qed
qed

definition ga_singleRun :: "slice_sort \<Rightarrow> GeneticSolver \<Rightarrow> rng \<Rightarrow> bool \<times> GeneticSolver \<times> rng" where
  "ga_singleRun srt ga r =
     (case initializePopulation ga r of (ga, r) \<Rightarrow>
        (let generationsWithoutImprovement = 0;
             bestFitnessEver = int (ga_n ga * ga_n ga)
         in ga_loop srt ga 0 generationsWithoutImprovement bestFitnessEver r))"

lemma ga_singleRun_params:
  "ga_singleRun srt ga r = (found, ga', r') \<Longrightarrow> ga_same_params ga ga'"
proof -
  assume a: "ga_singleRun srt ga r = (found, ga', r')"
  obtain ga0 r0 where i: "initializePopulation ga r = (ga0, r0)"
    by (cases "initializePopulation ga r")
  from a i have "ga_loop srt ga0 0 0 (int (ga_n ga0 * ga_n ga0)) r0 = (found, ga', r')"
    by (simp add: ga_singleRun_def)
  from ga_loop_params[OF this] initializePopulation_params[OF i] show ?thesis
    by (blast intro: ga_same_params_trans)
qed

function ga_restartLoop :: "slice_sort \<Rightarrow> GeneticSolver \<Rightarrow> nat \<Rightarrow> rng \<Rightarrow> bool \<times> GeneticSolver \<times> rng" where
  "ga_restartLoop srt ga restart r =
     (if restart < ga_restarts ga then
        (case ga_singleRun srt ga r of
           (found, ga', r') \<Rightarrow>
             if found then (True, ga', r') else ga_restartLoop srt ga' (restart + 1) r')
      else (False, ga, r))"
  by pat_completeness auto
termination
  by (relation "measure (\<lambda>(srt, ga, restart, r). ga_restarts ga - restart)")
     (auto dest!: ga_singleRun_params[OF sym] simp: ga_same_params_def)

declare ga_restartLoop.simps [simp del]

definition ga_Solve :: "slice_sort \<Rightarrow> GeneticSolver \<Rightarrow> rng \<Rightarrow> bool \<times> GeneticSolver \<times> rng" where
  "ga_Solve srt ga r = ga_restartLoop srt ga 0 r"

definition ga_GetSolution :: "GeneticSolver \<Rightarrow> board" where
  "ga_GetSolution ga = ga_solution ga"

section \<open>Printing a solution\<close>

text \<open>
  Standard output is modelled by the text a call writes.  \<open>%d\<close> formats an \<open>int\<close> in decimal;
  \<open>Println\<close> ends a line with the character 10.
\<close>

abbreviation newline :: char where "newline \<equiv> CHR 0x0A"

definition digit :: "nat \<Rightarrow> char" where
  "digit d = ''0123456789'' ! d"

function decimal :: "nat \<Rightarrow> string" where
  "decimal n = (if n < 10 then [digit n] else decimal (n div 10) @ [digit (n mod 10)])"
  by pat_completeness auto
termination
  by (relation "measure (\<lambda>n. n)") auto

declare decimal.simps [simp del]

text \<open>
  The two nested loops shared, line for line, by the \<open>PrintSolution\<close> of every solver: line
  \<open>i\<close> of the grid has, at position \<open>j\<close>, \<open>Q\<close> when \<open>solution[i] == j\<close> and a dot otherwise.
\<close>

definition print_grid :: "nat \<Rightarrow> board \<Rightarrow> string \<Rightarrow> string" where
  "print_grid n solution out =
     fold (\<lambda>i out.
        (fold (\<lambda>j out. if solution ! i = int j then out @ ''Q '' else out @ ''. '')
           [0 ..< n] out) @ [newline])
       [0 ..< n] out"

text \<open>
  \<open>PrintSolution\<close> has a pointer receiver and assigns to no field: the result is the solver
  as it was and the text written.  \<open>solution[i]\<close> with \<open>i\<close> beyond the slice is a run-time
  panic, \<open>None\<close> in the model; a solved solver's \<open>solution\<close> has length \<open>n\<close>.
\<close>

definition greedy_PrintSolution :: "GreedySolver \<Rightarrow> (GreedySolver \<times> string) option" where
  "greedy_PrintSolution g =
     (if \<not> g_solved g then Some (g, ''No solution found'' @ [newline])
      else if length (g_solution g) < g_n g then None
      else Some (g, print_grid (g_n g) (g_solution g)
                      (''Greedy Search Solution for N='' @ decimal (g_n g) @ '':'' @ [newline])
                    @ [newline]))"

definition sa_PrintSolution ::
  "SimulatedAnnealingSolver \<Rightarrow> (SimulatedAnnealingSolver \<times> string) option" where
  "sa_PrintSolution sa =
     (if \<not> sa_solved sa then Some (sa, ''No solution found'' @ [newline])
      else if length (sa_solution sa) < sa_n sa then None
      else Some (sa, print_grid (sa_n sa) (sa_solution sa)
                      (''Simulated Annealing Solution for N='' @ decimal (sa_n sa) @ '':'' @ [newline])
                    @ [newline]))"

definition ga_PrintSolution :: "GeneticSolver \<Rightarrow> (GeneticSolver \<times> string) option" where
  "ga_PrintSolution ga =
     (if \<not> ga_solved ga then Some (ga, ''No solution found'' @ [newline])
      else if length (ga_solution ga) < ga_n ga then None
      else Some (ga, print_grid (ga_n ga) (ga_solution ga)
                      (''Genetic Algorithm Solution for N='' @ decimal (ga_n ga) @ '':'' @ [newline])
                    @ [newline]))"

text \<open>Reading the text printed: its lines, and the cell of two characters at a grid position
  (the grid follows the header line).\<close>

fun lines_of :: "string \<Rightarrow> string list" where
  "lines_of [] = [[]]"
| "lines_of (c # cs) =
     (if c = newline then [] # lines_of cs
      else (case lines_of cs of [] \<Rightarrow> [[c]] | l # ls \<Rightarrow> (c # l) # ls))"

definition grid_cell :: "string \<Rightarrow> nat \<Rightarrow> nat \<Rightarrow> string" where
  "grid_cell text row col = take 2 (drop (2 * col) (lines_of text ! (row + 1)))"

section \<open>The objective as a pair count\<close>

text \<open>The two summands of the conflict count, as the specification words them.\<close>

definition row_pairs :: "nat \<Rightarrow> board \<Rightarrow> (nat \<times> nat) set" where
  "row_pairs N b = {(i, j). i < j \<and> j < N \<and> b ! i = b ! j}"

definition diag_pairs :: "nat \<Rightarrow> board \<Rightarrow> (nat \<times> nat) set" where
  "diag_pairs N b = {(i, j). i < j \<and> j < N \<and> \<bar>b ! i - b ! j\<bar> = \<bar>int i - int j\<bar>}"

text \<open>Zero-conflict property of a board: no two queens share a row or a diagonal.\<close>

definition valid_solution :: "nat \<Rightarrow> board \<Rightarrow> bool" where
  "valid_solution N b =
     (\<forall>i < N. \<forall>j < N. i \<noteq> j \<longrightarrow> b ! i \<noteq> b ! j \<and> \<bar>b ! i - b ! j\<bar> \<noteq> \<bar>int i - int j\<bar>)"

text \<open>The loop body adds the two indicator values of a pair.\<close>

definition pair_weight :: "board \<Rightarrow> nat \<Rightarrow> nat \<Rightarrow> int" where
  "pair_weight b i j =
     (if b ! i = b ! j then 1 else 0) + (if \<bar>b ! i - b ! j\<bar> = \<bar>int i - int j\<bar> then 1 else 0)"

definition full_count :: "nat \<Rightarrow> board \<Rightarrow> int" where
  "full_count N b = (\<Sum>i = 0..<N. \<Sum>j = i + 1..<N. pair_weight b i j)"

text \<open>The data invariant of a board: length \<open>N\<close>, rows in \<open>[0,N)\<close>.\<close>

definition board_ok :: "nat \<Rightarrow> board \<Rightarrow> bool" where
  "board_ok N b = (length b = N \<and> list_all (\<lambda>v. 0 \<le> v \<and> v < int N) b)"

text \<open>
  The reassignments a sweep of the greedy solver looks at, in the order of the two loops;
  the solver after one reassignment; and what the sweep does with one candidate once the
  queen is back in place.
\<close>

definition greedy_candidates :: "GreedySolver \<Rightarrow> (nat \<times> nat) list" where
  "greedy_candidates g =
     concat (map (\<lambda>col. map (\<lambda>newRow. (col, newRow)) [0 ..< g_n g]) [0 ..< g_n g])"

definition greedy_moved :: "GreedySolver \<Rightarrow> nat \<times> nat \<Rightarrow> GreedySolver" where
  "greedy_moved g c = g\<lparr>g_board := (g_board g)[fst c := int (snd c)]\<rparr>"

definition greedy_consider :: "GreedySolver \<Rightarrow> nat \<times> nat \<Rightarrow> int \<times> board \<Rightarrow> int \<times> board" where
  "greedy_consider g c s =
     (if g_board g ! fst c \<noteq> int (snd c) \<and> countConflicts (greedy_moved g c) < fst s
      then (countConflicts (greedy_moved g c), copy_go (snd s) (g_board (greedy_moved g c)))
      else s)"

text \<open>The greedy solver and the random source after \<open>k\<close> iterations that found conflicts.\<close>

primrec greedy_after :: "nat \<Rightarrow> GreedySolver \<Rightarrow> rng \<Rightarrow> GreedySolver \<times> rng" where
  "greedy_after 0 g r = (g, r)"
| "greedy_after (Suc k) g r = (case greedy_step g r of (g', r') \<Rightarrow> greedy_after k g' r')"

text \<open>The column's conflict count with its queen moved to \<open>row\<close>, as the scan computes it.\<close>

definition sa_rowConflicts :: "SimulatedAnnealingSolver \<Rightarrow> board \<Rightarrow> nat \<Rightarrow> nat \<Rightarrow> int" where
  "sa_rowConflicts sa b col row = calculateConflictsForPosition sa (b[col := int row]) col"

text \<open>A permutation of \<open>[0,N)\<close>: length \<open>N\<close>, no duplicate, rows in \<open>[0,N)\<close> (so that no
  row is missing either).\<close>

definition is_permutation :: "nat \<Rightarrow> board \<Rightarrow> bool" where
  "is_permutation N b = (length b = N \<and> distinct b \<and> list_all (\<lambda>v. 0 \<le> v \<and> v < int N) b)"

text \<open>The value the fill loop reads at step \<open>i\<close>.\<close>

definition ox_source :: "nat \<Rightarrow> board \<Rightarrow> nat \<Rightarrow> nat \<Rightarrow> int" where
  "ox_source n parent2 e i = parent2 ! ((e + 1 + i) mod n)"

text \<open>What the simulated-annealing loop keeps true of its variables: the two boards are in
  range and the two costs are the costs of the two boards.\<close>

definition sa_inv :: "SimulatedAnnealingSolver \<Rightarrow> int \<Rightarrow> int \<Rightarrow> board \<Rightarrow> bool" where
  "sa_inv sa currentCost bestCost bestBoard =
     (board_ok (sa_n sa) (sa_board sa) \<and> currentCost = calculateCostForBoard sa (sa_board sa)
      \<and> board_ok (sa_n sa) bestBoard \<and> bestCost = calculateCostForBoard sa bestBoard)"

text \<open>\<open>r'\<close> is what is left of the stream \<open>r\<close> after some draws.\<close>

definition rng_later :: "rng \<Rightarrow> rng \<Rightarrow> bool" where
  "rng_later r r' = (\<exists>k. r' = rng_drop k r)"

text \<open>A stream on which no value of \<open>Intn n\<close> is drawn forever from some point on.\<close>

definition fair_stream :: "nat \<Rightarrow> rng \<Rightarrow> bool" where
  "fair_stream n r = (\<forall>k v. \<exists>j. k \<le> j \<and> r j mod n \<noteq> v)"

text \<open>What the genetic solver keeps true of its population once it is initialized, and
  what holds before that.\<close>

definition ga_pre :: "GeneticSolver \<Rightarrow> bool" where
  "ga_pre ga = (0 < ga_n ga \<and> 2 \<le> ga_populationSize ga
                \<and> length (ga_population ga) = ga_populationSize ga)"

definition ga_inv :: "GeneticSolver \<Rightarrow> bool" where
  "ga_inv ga = (ga_pre ga \<and> list_all (\<lambda>ind. board_ok (ga_n ga) (chromosome ind)) (ga_population ga))"

text \<open>The outcome of a run of the genetic solver, as a predicate on the state before, the
  flag returned and the state after.\<close>

definition ga_outcome :: "GeneticSolver \<Rightarrow> bool \<Rightarrow> GeneticSolver \<Rightarrow> bool" where
  "ga_outcome ga found ga' =
     (if found
      then ga_solved ga' \<and> board_ok (ga_n ga) (ga_solution ga')
           \<and> calculateFitness ga (ga_solution ga') = 0
      else ga_solved ga' = ga_solved ga \<and> ga_solution ga' = ga_solution ga)"

section \<open>Properties of the objective function\<close>

lemma abs_go_abs: "abs_go x = \<bar>x\<bar>"
  by (simp add: abs_go_def)

lemma pair_weight_sym: "pair_weight b i j = pair_weight b j i"
  by (auto simp: pair_weight_def)

lemma pair_weight_nonneg: "0 \<le> pair_weight b i j"
  by (simp add: pair_weight_def)

lemma fold_add_weight:
  "fold (\<lambda>j c. c + w j) xs c0 = c0 + sum_list (map w xs)"
  by (induction xs arbitrary: c0) (simp_all add: add.assoc)

lemma inner_scan_sum:
  "fold (\<lambda>j conflicts.
       let conflicts = (if b ! i = b ! j then conflicts + 1 else conflicts)
       in (if abs_go (b ! i - b ! j) = abs_go (int i - int j) then conflicts + 1 else conflicts))
     xs c0 = c0 + sum_list (map (pair_weight b i) xs)"
proof -
  have "(\<lambda>j conflicts.
       let conflicts = (if b ! i = b ! j then conflicts + 1 else conflicts)
       in (if abs_go (b ! i - b ! j) = abs_go (int i - int j) then conflicts + 1 else conflicts))
     = (\<lambda>j c. c + pair_weight b i j)"
    by (intro ext) (simp add: pair_weight_def abs_go_abs Let_def)
  then show ?thesis by (simp add: fold_add_weight)
qed

lemma outer_scan_sum:
  "fold (\<lambda>i conflicts.
        fold (\<lambda>j conflicts.
           let conflicts = (if b ! i = b ! j then conflicts + 1 else conflicts)
           in (if abs_go (b ! i - b ! j) = abs_go (int i - int j)
               then conflicts + 1 else conflicts))
          [i + 1 ..< N] conflicts)
       [0 ..< N] 0 = full_count N b"
proof -
  have "(\<lambda>i conflicts.
        fold (\<lambda>j conflicts.
           let conflicts = (if b ! i = b ! j then conflicts + 1 else conflicts)
           in (if abs_go (b ! i - b ! j) = abs_go (int i - int j)
               then conflicts + 1 else conflicts))
          [i + 1 ..< N] conflicts)
     = (\<lambda>i c. c + (\<Sum>j = i + 1..<N. pair_weight b i j))"
    by (intro ext) (simp add: inner_scan_sum interv_sum_list_conv_sum_set_nat)
  then show ?thesis
    by (simp add: fold_add_weight interv_sum_list_conv_sum_set_nat full_count_def)
qed

lemma countConflicts_full: "countConflicts g = full_count (g_n g) (g_board g)"
  unfolding countConflicts_def by (rule outer_scan_sum)

lemma calculateCostForBoard_full: "calculateCostForBoard sa b = full_count (sa_n sa) b"
  unfolding calculateCostForBoard_def by (rule outer_scan_sum)

lemma calculateFitness_full: "calculateFitness ga c = full_count (ga_n ga) c"
  unfolding calculateFitness_def by (rule outer_scan_sum)

lemma indicator_double_sum_card:
  fixes P :: "nat \<Rightarrow> nat \<Rightarrow> bool"
  shows "(\<Sum>i = 0..<N. \<Sum>j = i + 1..<N. (if P i j then 1 else 0 :: int))
         = int (card {(i, j). i < j \<and> j < N \<and> P i j})"
proof -
  let ?S = "Sigma {0..<N} (\<lambda>i. {i + 1..<N})"
  have fin: "finite ?S" by simp
  have "(\<Sum>i = 0..<N. \<Sum>j = i + 1..<N. (if P i j then 1 else 0 :: int))
        = (\<Sum>p\<in>?S. (if P (fst p) (snd p) then 1 else 0))"
    by (simp add: sum.Sigma case_prod_unfold)
  also have "\<dots> = int (card {p \<in> ?S. P (fst p) (snd p)})"
    using fin by (simp add: sum.If_cases Int_def)
  also have "{p \<in> ?S. P (fst p) (snd p)} = {(i, j). i < j \<and> j < N \<and> P i j}"
    by auto
  finally show ?thesis .
qed

lemma full_count_pairs:
  "full_count N b = int (card (row_pairs N b)) + int (card (diag_pairs N b))"
proof -
  have "full_count N b =
      (\<Sum>i = 0..<N. \<Sum>j = i + 1..<N. (if b ! i = b ! j then 1 else 0))
    + (\<Sum>i = 0..<N. \<Sum>j = i + 1..<N. (if \<bar>b ! i - b ! j\<bar> = \<bar>int i - int j\<bar> then 1 else 0))"
    unfolding full_count_def pair_weight_def by (simp only: sum.distrib)
  then show ?thesis
    unfolding row_pairs_def diag_pairs_def
    by (simp only: indicator_double_sum_card)
qed

lemma full_count_nonneg: "0 \<le> full_count N b"
  by (simp add: full_count_pairs)

lemma finite_row_pairs: "finite (row_pairs N b)"
  by (rule finite_subset[of _ "{0..<N} \<times> {0..<N}"]) (auto simp: row_pairs_def)

lemma finite_diag_pairs: "finite (diag_pairs N b)"
  by (rule finite_subset[of _ "{0..<N} \<times> {0..<N}"]) (auto simp: diag_pairs_def)

lemma full_count_zero_iff: "full_count N b = 0 \<longleftrightarrow> valid_solution N b"
proof -
  have "full_count N b = 0 \<longleftrightarrow> card (row_pairs N b) = 0 \<and> card (diag_pairs N b) = 0"
    unfolding full_count_pairs by linarith
  also have "\<dots> \<longleftrightarrow> row_pairs N b = {} \<and> diag_pairs N b = {}"
    by (simp add: finite_row_pairs finite_diag_pairs)
  also have "\<dots> \<longleftrightarrow> valid_solution N b"
  proof
    assume h: "row_pairs N b = {} \<and> diag_pairs N b = {}"
    show "valid_solution N b"
      unfolding valid_solution_def
    proof (intro allI impI)
      fix i j assume ij: "i < N" "j < N" "i \<noteq> j"
      show "b ! i \<noteq> b ! j \<and> \<bar>b ! i - b ! j\<bar> \<noteq> \<bar>int i - int j\<bar>"
      proof (cases "i < j")
        case True
        with h ij have "(i, j) \<notin> row_pairs N b" "(i, j) \<notin> diag_pairs N b" by simp_all
        with True ij show ?thesis by (simp add: row_pairs_def diag_pairs_def)
      next
        case False
        with ij have lt: "j < i" by simp
        with h ij have "(j, i) \<notin> row_pairs N b" "(j, i) \<notin> diag_pairs N b" by simp_all
        with lt ij show ?thesis by (auto simp: row_pairs_def diag_pairs_def)
      qed
    qed
  next
    assume v: "valid_solution N b"
    have "\<And>i j. i < j \<Longrightarrow> j < N \<Longrightarrow> b ! i \<noteq> b ! j \<and> \<bar>b ! i - b ! j\<bar> \<noteq> \<bar>int i - int j\<bar>"
    proof -
      fix i j :: nat assume "i < j" "j < N"
      then have "i < N" "j < N" "i \<noteq> j" by simp_all
      with v show "b ! i \<noteq> b ! j \<and> \<bar>b ! i - b ! j\<bar> \<noteq> \<bar>int i - int j\<bar>"
        unfolding valid_solution_def by blast
    qed
    then show "row_pairs N b = {} \<and> diag_pairs N b = {}"
      unfolding row_pairs_def diag_pairs_def by blast
  qed
  finally show ?thesis .
qed

lemma position_scan_sum:
  "fold (\<lambda>j conflicts.
        if j \<noteq> col then
          let conflicts = (if b ! col = b ! j then conflicts + 1 else conflicts)
          in (if abs_go (b ! col - b ! j) = abs_go (int col - int j)
              then conflicts + 1 else conflicts)
        else conflicts)
       [0 ..< N] 0 = (\<Sum>j = 0..<N. if j \<noteq> col then pair_weight b col j else 0)"
proof -
  have "(\<lambda>j conflicts.
        if j \<noteq> col then
          let conflicts = (if b ! col = b ! j then conflicts + 1 else conflicts)
          in (if abs_go (b ! col - b ! j) = abs_go (int col - int j)
              then conflicts + 1 else conflicts)
        else conflicts)
     = (\<lambda>j c. c + (if j \<noteq> col then pair_weight b col j else 0))"
    by (intro ext) (simp add: pair_weight_def abs_go_abs Let_def)
  then show ?thesis
    by (simp add: fold_add_weight interv_sum_list_conv_sum_set_nat)
qed

lemma symmetric_double_sum:
  fixes w :: "nat \<Rightarrow> nat \<Rightarrow> int"
  assumes sym: "\<And>i j. w i j = w j i"
  shows "(\<Sum>c = 0..<N. \<Sum>j = 0..<N. if j \<noteq> c then w c j else 0)
         = 2 * (\<Sum>i = 0..<N. \<Sum>j = i + 1..<N. w i j)"
proof (induction N)
  case 0
  show ?case by simp
next
  case (Suc N)
  have inner: "\<And>c. c < N \<Longrightarrow>
      (\<Sum>j = 0..<Suc N. if j \<noteq> c then w c j else 0)
      = (\<Sum>j = 0..<N. if j \<noteq> c then w c j else 0) + w c N"
    by simp
  have last: "(\<Sum>j = 0..<Suc N. if j \<noteq> N then w N j else 0) = (\<Sum>j = 0..<N. w N j)"
    by simp
  have lhs: "(\<Sum>c = 0..<Suc N. \<Sum>j = 0..<Suc N. if j \<noteq> c then w c j else 0)
      = (\<Sum>c = 0..<N. \<Sum>j = 0..<N. if j \<noteq> c then w c j else 0)
        + (\<Sum>c = 0..<N. w c N) + (\<Sum>j = 0..<N. w N j)"
    using inner last by (simp add: sum.distrib)
  have upper: "\<And>i. i < N \<Longrightarrow>
      (\<Sum>j = i + 1..<Suc N. w i j) = (\<Sum>j = i + 1..<N. w i j) + w i N"
    by simp
  have rhs: "(\<Sum>i = 0..<Suc N. \<Sum>j = i + 1..<Suc N. w i j)
      = (\<Sum>i = 0..<N. \<Sum>j = i + 1..<N. w i j) + (\<Sum>i = 0..<N. w i N)"
    using upper by (simp add: sum.distrib)
  have "(\<Sum>j = 0..<N. w N j) = (\<Sum>c = 0..<N. w c N)"
    by (rule sum.cong) (simp_all add: sym)
  with lhs rhs Suc.IH show ?case by simp
qed

lemma position_sum_twice_full:
  "(\<Sum>c = 0..<N. \<Sum>j = 0..<N. if j \<noteq> c then pair_weight b c j else 0) = 2 * full_count N b"
  unfolding full_count_def by (rule symmetric_double_sum) (rule pair_weight_sym)

lemma calculateConflictsForPosition_sum:
  "calculateConflictsForPosition sa b col
     = (\<Sum>j = 0..<sa_n sa. if j \<noteq> col then pair_weight b col j else 0)"
  unfolding calculateConflictsForPosition_def by (rule position_scan_sum)

section \<open>Claims about the objective function\<close>

text \<open>
  Claim C2.  For every board \<open>b\<close> of length \<open>N\<close> with rows in \<open>[0,N)\<close>, the three full
  conflict counters (\<open>GreedySolver.countConflicts\<close> on a solver whose board is \<open>b\<close>,
  \<open>SimulatedAnnealingSolver.calculateCostForBoard\<close>, \<open>GeneticSolver.calculateFitness\<close>)
  return the number of column pairs \<open>i < j\<close> sharing a row plus the number of column pairs
  \<open>i < j\<close> sharing a diagonal; the result is non-negative, the three agree, and it is zero
  exactly when the board is a valid solution.
\<close>

theorem conflict_count_is_pair_count:
  assumes "length b = N" and "\<forall>v \<in> set b. 0 \<le> v \<and> v < int N"
    and "g_n g = N" and "g_board g = b" and "sa_n sa = N" and "ga_n ga = N"
  shows "countConflicts g = int (card (row_pairs N b)) + int (card (diag_pairs N b))
       \<and> calculateCostForBoard sa b = int (card (row_pairs N b)) + int (card (diag_pairs N b))
       \<and> calculateFitness ga b = int (card (row_pairs N b)) + int (card (diag_pairs N b))
       \<and> 0 \<le> countConflicts g
       \<and> calculateCostForBoard sa b = countConflicts g
       \<and> calculateFitness ga b = countConflicts g
       \<and> (countConflicts g = 0 \<longleftrightarrow> valid_solution N b)"
proof -
  have g: "countConflicts g = full_count N b"
    using assms(3,4) by (simp add: countConflicts_full)
  have s: "calculateCostForBoard sa b = full_count N b"
    using assms(5) by (simp add: calculateCostForBoard_full)
  have f: "calculateFitness ga b = full_count N b"
    using assms(6) by (simp add: calculateFitness_full)
  show ?thesis
    unfolding g s f
    using full_count_pairs[of N b] full_count_nonneg[of N b] full_count_zero_iff[of N b]
    by simp
qed

theorem conflict_count_is_pair_count_witness:
  "int (card (row_pairs 3 [0, 2, 1])) + int (card (diag_pairs 3 [0, 2, 1])) = 1
   \<and> calculateCostForBoard (NewSimulatedAnnealingSolver 3) [0, 2, 1] = 1
   \<and> calculateFitness
        \<lparr> ga_n = 3, ga_populationSize = 80, ga_maxGenerations = 200, ga_mutationRate = 15 / 100,
          ga_crossoverRate = 85 / 100, ga_population = [], ga_solution = [], ga_solved = False,
          ga_restarts = 5 \<rparr> [0, 2, 1] = 1
   \<and> \<not> valid_solution 3 [0, 2, 1]"
proof -
  let ?g = "(NewGreedySolver 3)\<lparr>g_board := [0, 2, 1]\<rparr>"
  let ?ga = "\<lparr> ga_n = 3, ga_populationSize = 80, ga_maxGenerations = 200,
          ga_mutationRate = 15 / 100, ga_crossoverRate = 85 / 100, ga_population = [],
          ga_solution = [], ga_solved = False, ga_restarts = 5 \<rparr>"
  have one: "countConflicts ?g = 1"
    by (simp add: countConflicts_def NewGreedySolver_def abs_go_def upt_conv_Cons)
  have "length [0, 2, 1 :: int] = 3" "\<forall>v \<in> set [0, 2, 1 :: int]. 0 \<le> v \<and> v < int 3"
    "g_n ?g = 3" "g_board ?g = [0, 2, 1]" "sa_n (NewSimulatedAnnealingSolver 3) = 3" "ga_n ?ga = 3"
    by (simp_all add: NewGreedySolver_def NewSimulatedAnnealingSolver_def)
  from conflict_count_is_pair_count[OF this] one show ?thesis by simp
qed

text \<open>
  Claim C8.  For every board \<open>b\<close> of length \<open>N\<close> with rows in \<open>[0,N)\<close>, the column-scoped
  counts \<open>calculateConflictsForPosition(b, c)\<close> summed over all columns \<open>c\<close> give exactly
  twice \<open>calculateCostForBoard(b)\<close>: each conflicting pair is seen once from each of its
  two columns, and two different columns are never both a row conflict and a diagonal
  conflict.
\<close>

theorem column_counts_sum_to_twice_cost:
  assumes "length b = N" and "\<forall>v \<in> set b. 0 \<le> v \<and> v < int N" and "sa_n sa = N"
  shows "(\<Sum>c = 0..<N. calculateConflictsForPosition sa b c) = 2 * calculateCostForBoard sa b
       \<and> (\<forall>i < N. \<forall>j < N. i \<noteq> j \<longrightarrow>
            \<not> (b ! i = b ! j \<and> abs_go (b ! i - b ! j) = abs_go (int i - int j)))"
proof -
  have "(\<Sum>c = 0..<N. calculateConflictsForPosition sa b c)
        = (\<Sum>c = 0..<N. \<Sum>j = 0..<N. if j \<noteq> c then pair_weight b c j else 0)"
    using assms(3) by (simp add: calculateConflictsForPosition_sum)
  also have "\<dots> = 2 * full_count N b"
    by (rule position_sum_twice_full)
  finally have sum: "(\<Sum>c = 0..<N. calculateConflictsForPosition sa b c)
        = 2 * calculateCostForBoard sa b"
    using assms(3) by (simp add: calculateCostForBoard_full)
  have excl: "\<forall>i < N. \<forall>j < N. i \<noteq> j \<longrightarrow>
            \<not> (b ! i = b ! j \<and> abs_go (b ! i - b ! j) = abs_go (int i - int j))"
    by (auto simp: abs_go_abs)
  from sum excl show ?thesis by blast
qed

theorem column_counts_sum_to_twice_cost_witness:
  "(\<Sum>c = 0..<3. calculateConflictsForPosition (NewSimulatedAnnealingSolver 3) [0, 2, 1] c) = 2
   \<and> calculateCostForBoard (NewSimulatedAnnealingSolver 3) [0, 2, 1] = 1"
proof -
  have cost: "calculateCostForBoard (NewSimulatedAnnealingSolver 3) [0, 2, 1] = 1"
    by (simp add: calculateCostForBoard_def NewSimulatedAnnealingSolver_def abs_go_def
        upt_conv_Cons)
  have "length [0, 2, 1 :: int] = 3" "\<forall>v \<in> set [0, 2, 1 :: int]. 0 \<le> v \<and> v < int 3"
    "sa_n (NewSimulatedAnnealingSolver 3) = 3"
    by (simp_all add: NewSimulatedAnnealingSolver_def)
  from column_counts_sum_to_twice_cost[OF this] cost show ?thesis by simp
qed

section \<open>The greedy hill-climber: properties\<close>

lemma Min_insert_absorb:
  fixes a b :: int
  assumes "finite F" and "a \<le> b"
  shows "Min (insert a (insert b F)) = Min (insert a F)"
  using assms by (cases "F = {}") (auto simp: min_def)

lemma greedy_tryMove_consider:
  "greedy_tryMove col newRow (g, s) = (g, greedy_consider g (col, newRow) s)"
  by (cases s) (simp add: greedy_tryMove_eq greedy_consider_def greedy_moved_def)

lemma greedy_rows_consider:
  "fold (\<lambda>newRow s. greedy_tryMove col newRow s) rows (g, s)
     = (g, fold (greedy_consider g) (map (\<lambda>newRow. (col, newRow)) rows) s)"
  by (induction rows arbitrary: s) (simp_all add: greedy_tryMove_consider)

lemma greedy_cols_consider:
  "fold (\<lambda>col s. fold (\<lambda>newRow s. greedy_tryMove col newRow s) rows s) cols (g, s)
     = (g, fold (greedy_consider g) (concat (map (\<lambda>col. map (\<lambda>newRow. (col, newRow)) rows) cols)) s)"
  by (induction cols arbitrary: s) (simp_all add: greedy_rows_consider)

lemma greedy_sweep_consider:
  "greedy_sweep g bc bb = (g, fold (greedy_consider g) (greedy_candidates g) (bc, bb))"
  by (simp add: greedy_sweep_def greedy_candidates_def greedy_cols_consider)

lemma greedy_consider_fold:
  assumes "fold (greedy_consider g) cs (bc0, bb0) = (bc, bb)"
    and "length bb0 = length (g_board g)"
  shows "length bb = length (g_board g)
     \<and> bc = Min (insert bc0 ((\<lambda>c. countConflicts (greedy_moved g c))
                 ` {c \<in> set cs. g_board g ! fst c \<noteq> int (snd c)}))
     \<and> (if bc < bc0
         then \<exists>c \<in> set cs. g_board g ! fst c \<noteq> int (snd c)
                \<and> bb = g_board (greedy_moved g c) \<and> countConflicts (greedy_moved g c) = bc
         else bb = bb0)"
  using assms
proof (induction cs arbitrary: bc0 bb0)
  case Nil
  then show ?case by simp
next
  case (Cons x cs)
  let ?ok = "\<lambda>c. g_board g ! fst c \<noteq> int (snd c)"
  let ?f = "\<lambda>c. countConflicts (greedy_moved g c)"
  let ?F = "?f ` {c \<in> set cs. ?ok c}"
  have finF: "finite ?F" by simp
  obtain bc1 bb1 where s1: "greedy_consider g x (bc0, bb0) = (bc1, bb1)"
    by (cases "greedy_consider g x (bc0, bb0)")
  have lenm: "length (g_board (greedy_moved g x)) = length (g_board g)"
    by (simp add: greedy_moved_def)
  have len1: "length bb1 = length (g_board g)"
    using s1 Cons.prems(2) by (auto simp: greedy_consider_def split: if_splits)
  from Cons.prems(1) s1 have rest: "fold (greedy_consider g) cs (bc1, bb1) = (bc, bb)" by simp
  note IH = Cons.IH[OF rest len1]
  have upd: "?ok x \<and> ?f x < bc0 \<Longrightarrow> bc1 = ?f x \<and> bb1 = g_board (greedy_moved g x)"
    using s1 Cons.prems(2) lenm by (simp add: greedy_consider_def)
  have keep: "\<not> (?ok x \<and> ?f x < bc0) \<Longrightarrow> bc1 = bc0 \<and> bb1 = bb0"
    using s1 by (auto simp: greedy_consider_def)
  have set_eq: "insert bc0 (?f ` {c \<in> set (x # cs). ?ok c})
      = (if ?ok x then insert (?f x) (insert bc0 ?F) else insert bc0 ?F)"
    by auto
  have min1: "Min (insert bc1 ?F) = Min (insert bc0 (?f ` {c \<in> set (x # cs). ?ok c}))"
  proof (cases "?ok x \<and> ?f x < bc0")
    case True
    with upd have b: "bc1 = ?f x" by simp
    from True have "?f x \<le> bc0" by simp
    from Min_insert_absorb[OF finF this] True show ?thesis
      unfolding set_eq b by simp
  next
    case False
    with keep have b: "bc1 = bc0" by simp
    show ?thesis
    proof (cases "?ok x")
      case True
      with False have ge: "bc0 \<le> ?f x" by simp
      from Min_insert_absorb[OF finF ge] True show ?thesis
        unfolding set_eq b by (simp add: insert_commute)
    next
      case False
      then show ?thesis unfolding set_eq b by simp
    qed
  qed
  note ih2 = IH[THEN conjunct2, THEN conjunct1]
  note ih3 = IH[THEN conjunct2, THEN conjunct2]
  have bc_le: "bc \<le> bc1" unfolding ih2 using finF by simp
  have bc1_le: "bc1 \<le> bc0" using upd keep by (cases "?ok x \<and> ?f x < bc0") auto
  have third: "if bc < bc0
         then \<exists>c \<in> set (x # cs). ?ok c \<and> bb = g_board (greedy_moved g c) \<and> ?f c = bc
         else bb = bb0"
  proof (cases "bc < bc1")
    case True
    with ih3 have "\<exists>c \<in> set cs. ?ok c \<and> bb = g_board (greedy_moved g c) \<and> ?f c = bc"
      by (simp only: if_True)
    moreover from True bc1_le have "bc < bc0" by simp
    ultimately show ?thesis by auto
  next
    case False
    with bc_le have e: "bc = bc1" by simp
    from False ih3 have bbe: "bb = bb1" by (simp only: if_False)
    show ?thesis
    proof (cases "?ok x \<and> ?f x < bc0")
      case True
      with upd e bbe show ?thesis by auto
    next
      case False
      with keep e bbe show ?thesis by auto
    qed
  qed
  from IH[THEN conjunct1] ih2 min1 third show ?case by (simp only: simp_thms)
qed

lemma randomInit_prefix:
  assumes "k \<le> g_n g" and "length (g_board g) = g_n g"
  shows "fold (\<lambda>i (g, r). let (v, r) = Intn (g_n g) r in (g\<lparr>g_board := (g_board g)[i := int v]\<rparr>, r))
       [0 ..< k] (g, r)
     = (g\<lparr>g_board := map (\<lambda>i. int (r i mod g_n g)) [0 ..< k] @ drop k (g_board g)\<rparr>, rng_drop k r)"
  using assms
proof (induction k)
  case 0
  then show ?case by simp
next
  case (Suc k)
  let ?b = "map (\<lambda>i. int (r i mod g_n g)) [0 ..< k] @ drop k (g_board g)"
  have k: "k < length (g_board g)" using Suc.prems by simp
  have upd: "?b[k := int (r k mod g_n g)]
      = map (\<lambda>i. int (r i mod g_n g)) [0 ..< Suc k] @ drop (Suc k) (g_board g)"
    using k by (simp add: list_update_append Cons_nth_drop_Suc[symmetric])
  have "fold (\<lambda>i (g, r). let (v, r) = Intn (g_n g) r in (g\<lparr>g_board := (g_board g)[i := int v]\<rparr>, r))
       [0 ..< Suc k] (g, r)
     = (\<lambda>(g, r). let (v, r) = Intn (g_n g) r in (g\<lparr>g_board := (g_board g)[k := int v]\<rparr>, r))
         (g\<lparr>g_board := ?b\<rparr>, rng_drop k r)"
    using Suc by simp
  also have "\<dots> = (g\<lparr>g_board := ?b[k := int (r k mod g_n g)]\<rparr>, rng_drop (Suc k) r)"
    by (simp add: Intn_drop)
  finally show ?case by (simp only: upd)
qed

lemma randomInit_board:
  assumes "length (g_board g) = g_n g"
  shows "randomInit g r
     = (g\<lparr>g_board := map (\<lambda>i. int (r i mod g_n g)) [0 ..< g_n g]\<rparr>, rng_drop (g_n g) r)"
  using randomInit_prefix[of "g_n g" g r] assms by (simp add: randomInit_def)

lemma greedy_step_cases:
  assumes len: "length (g_board g) = g_n g"
    and best: "fold (greedy_consider g) (greedy_candidates g) (countConflicts g, g_board g) = (bc, bb)"
  shows "greedy_step g r = (if bc < countConflicts g then (g\<lparr>g_board := bb\<rparr>, r) else randomInit g r)"
proof -
  have c: "copy_go (replicate (g_n g) 0) (g_board g) = g_board g"
    using len by simp
  from greedy_consider_fold[OF best] have "length bb = length (g_board g)" by simp
  then have c2: "copy_go (g_board g) bb = bb" by simp
  show ?thesis
    by (simp add: greedy_step_def Let_def c greedy_sweep_consider best c2)
qed

lemma board_ok_update:
  "board_ok N b \<Longrightarrow> v < N \<Longrightarrow> board_ok N (b[i := int v])"
  by (auto simp: board_ok_def list_all_iff dest!: set_update_subset_insert[THEN subsetD])

lemma board_ok_random:
  "0 < N \<Longrightarrow> board_ok N (map (\<lambda>i. int (r i mod N)) [0 ..< N])"
  by (simp add: board_ok_def list_all_iff)

lemma greedy_candidates_set:
  "set (greedy_candidates g) = {c. fst c < g_n g \<and> snd c < g_n g}"
  by (auto simp: greedy_candidates_def)

lemma greedy_step_board_ok:
  assumes ok: "board_ok (g_n g) (g_board g)" and pos: "0 < g_n g"
    and st: "greedy_step g r = (g', r')"
  shows "board_ok (g_n g') (g_board g')"
proof -
  have len: "length (g_board g) = g_n g" using ok by (simp add: board_ok_def)
  obtain bc bb where best:
    "fold (greedy_consider g) (greedy_candidates g) (countConflicts g, g_board g) = (bc, bb)"
    by (cases "fold (greedy_consider g) (greedy_candidates g) (countConflicts g, g_board g)")
  note sc = greedy_step_cases[OF len best, of r]
  note cf = greedy_consider_fold[OF best]
  show ?thesis
  proof (cases "bc < countConflicts g")
    case True
    with cf obtain c where c: "c \<in> set (greedy_candidates g)" "bb = g_board (greedy_moved g c)"
      by auto
    from c(1) have "snd c < g_n g" by (simp add: greedy_candidates_set)
    with ok c(2) have "board_ok (g_n g) bb"
      by (simp add: greedy_moved_def board_ok_update)
    with True sc st show ?thesis by auto
  next
    case False
    with sc st have "randomInit g r = (g', r')" by simp
    with randomInit_board[OF len, of r] pos show ?thesis
      by (auto simp: board_ok_random)
  qed
qed

lemma greedy_loop_true:
  assumes "greedy_loop g iter r = (True, g', r')"
    and "board_ok (g_n g) (g_board g)" and "0 < g_n g"
  shows "g_solved g' \<and> g_n g' = g_n g \<and> board_ok (g_n g) (g_solution g')
         \<and> countConflicts (g'\<lparr>g_board := g_solution g'\<rparr>) = 0"
  using assms
proof (induction g iter r rule: greedy_loop.induct)
  case (1 g iter r)
  show ?case
  proof (cases "iter < g_maxIterations g")
    case False
    with "1.prems"(1) show ?thesis by (simp add: greedy_loop.simps[of g iter r])
  next
    case lt: True
    show ?thesis
    proof (cases "countConflicts g = 0")
      case True
      have len: "length (g_board g) = g_n g" using "1.prems"(2) by (simp add: board_ok_def)
      from True lt "1.prems"(1)
      have g': "g' = g\<lparr>g_solution := g_board g, g_solved := True\<rparr>"
        by (simp add: greedy_loop.simps[of g iter r] len)
      have "countConflicts (g'\<lparr>g_board := g_solution g'\<rparr>) = countConflicts g"
        unfolding g' by (simp add: countConflicts_def)
      with True "1.prems"(2) show ?thesis unfolding g' by simp
    next
      case False
      obtain g1 r1 where st: "greedy_step g r = (g1, r1)" by (cases "greedy_step g r")
      from lt False st "1.prems"(1) have rec: "greedy_loop g1 (iter + 1) r1 = (True, g', r')"
        by (simp add: greedy_loop.simps[of g iter r])
      have n1: "g_n g1 = g_n g" using greedy_step_frame[OF st] by simp
      have ok1: "board_ok (g_n g1) (g_board g1)"
        by (rule greedy_step_board_ok[OF "1.prems"(2,3) st])
      have pos1: "0 < g_n g1" using n1 "1.prems"(3) by simp
      from "1.IH"[OF lt False st[symmetric] rec ok1 pos1] n1
      show ?thesis by simp
    qed
  qed
qed

lemma greedy_loop_result:
  "fst (greedy_loop g iter r)
     \<longleftrightarrow> (\<exists>k. iter + k < g_maxIterations g \<and> countConflicts (fst (greedy_after k g r)) = 0)"
proof (induction g iter r rule: greedy_loop.induct)
  case (1 g iter r)
  show ?case
  proof (cases "iter < g_maxIterations g")
    case False
    then show ?thesis by (simp add: greedy_loop.simps[of g iter r])
  next
    case lt: True
    show ?thesis
    proof (cases "countConflicts g = 0")
      case True
      with lt have "iter + 0 < g_maxIterations g \<and> countConflicts (fst (greedy_after 0 g r)) = 0"
        by simp
      then have "\<exists>k. iter + k < g_maxIterations g \<and> countConflicts (fst (greedy_after k g r)) = 0"
        by blast
      with True lt show ?thesis by (simp add: greedy_loop.simps[of g iter r])
    next
      case False
      obtain g1 r1 where st: "greedy_step g r = (g1, r1)" by (cases "greedy_step g r")
      have m1: "g_maxIterations g1 = g_maxIterations g" using greedy_step_frame[OF st] by simp
      have "fst (greedy_loop g iter r) = fst (greedy_loop g1 (iter + 1) r1)"
        using lt False st by (simp add: greedy_loop.simps[of g iter r])
      also have "\<dots> \<longleftrightarrow> (\<exists>k. iter + 1 + k < g_maxIterations g
                \<and> countConflicts (fst (greedy_after k g1 r1)) = 0)"
        using "1.IH"[OF lt False st[symmetric]] m1 by simp
      also have "\<dots> \<longleftrightarrow> (\<exists>k. iter + k < g_maxIterations g
                \<and> countConflicts (fst (greedy_after k g r)) = 0)"
      proof
        assume "\<exists>k. iter + 1 + k < g_maxIterations g
                \<and> countConflicts (fst (greedy_after k g1 r1)) = 0"
        then obtain k where "iter + 1 + k < g_maxIterations g"
          "countConflicts (fst (greedy_after k g1 r1)) = 0" by blast
        then have "iter + Suc k < g_maxIterations g
           \<and> countConflicts (fst (greedy_after (Suc k) g r)) = 0"
          using st by simp
        then show "\<exists>k. iter + k < g_maxIterations g
                \<and> countConflicts (fst (greedy_after k g r)) = 0" by blast
      next
        assume "\<exists>k. iter + k < g_maxIterations g
                \<and> countConflicts (fst (greedy_after k g r)) = 0"
        then obtain k where k: "iter + k < g_maxIterations g"
          "countConflicts (fst (greedy_after k g r)) = 0" by blast
        with False obtain j where j: "k = Suc j" by (cases k) auto
        with k st have "iter + 1 + j < g_maxIterations g
           \<and> countConflicts (fst (greedy_after j g1 r1)) = 0" by simp
        then show "\<exists>k. iter + 1 + k < g_maxIterations g
                \<and> countConflicts (fst (greedy_after k g1 r1)) = 0" by blast
      qed
      finally show ?thesis .
    qed
  qed
qed

lemma greedy_loop_false:
  "greedy_loop g iter r = (False, g', r') \<Longrightarrow> g_solved g' = g_solved g \<and> g_solution g' = g_solution g"
proof (induction g iter r rule: greedy_loop.induct)
  case (1 g iter r)
  show ?case
  proof (cases "iter < g_maxIterations g \<and> countConflicts g \<noteq> 0")
    case False
    with "1.prems" show ?thesis by (auto simp: greedy_loop.simps[of g iter r] split: if_splits)
  next
    case True
    obtain g1 r1 where st: "greedy_step g r = (g1, r1)" by (cases "greedy_step g r")
    from True st "1.prems" have rec: "greedy_loop g1 (iter + 1) r1 = (False, g', r')"
      by (simp add: greedy_loop.simps[of g iter r])
    from "1.IH"[OF _ _ st[symmetric] rec] True greedy_step_frame[OF st]
    show ?thesis by simp
  qed
qed

section \<open>Claims about the greedy hill-climber\<close>

text \<open>
  Claim C3.  In an iteration of \<open>GreedySolver.Solve\<close> that finds conflicts, the sweep looks
  at every reassignment (column \<open>col\<close>, row \<open>newRow \<noteq> board[col]\<close>), recounts the whole
  board for each, leaves the board as it was, and ends with the least count over the
  current count and all reassignments, together with a board reaching it.  The iteration
  commits that board exactly when its count is strictly below the current count, and
  otherwise gives every column a fresh draw.  The loop is capped at 10,000 iterations:
  \<open>Solve\<close> returns true exactly when one of the first 10,000 boards has no conflict, and
  returning false leaves the solver unsolved.
\<close>

theorem greedy_best_improvement_iteration:
  assumes "length (g_board g) = g_n g" and "countConflicts g \<noteq> 0"
    and "greedy_sweep g (countConflicts g) (copy_go (replicate (g_n g) 0) (g_board g))
           = (g1, bestConflicts, bestBoard)"
    and "randomInit (NewGreedySolver N) r0 = (gi, ri)"
  shows "g1 = g
     \<and> bestConflicts = Min (insert (countConflicts g)
          ((\<lambda>c. countConflicts (greedy_moved g c))
             ` {c. fst c < g_n g \<and> snd c < g_n g \<and> g_board g ! fst c \<noteq> int (snd c)}))
     \<and> (if bestConflicts < countConflicts g
         then \<exists>c. fst c < g_n g \<and> snd c < g_n g \<and> g_board g ! fst c \<noteq> int (snd c)
                \<and> bestBoard = g_board (greedy_moved g c)
                \<and> countConflicts (greedy_moved g c) = bestConflicts
         else bestBoard = g_board g)
     \<and> greedy_step g r =
         (if bestConflicts < countConflicts g then (g\<lparr>g_board := bestBoard\<rparr>, r)
          else (g\<lparr>g_board := map (\<lambda>i. int (r i mod g_n g)) [0 ..< g_n g]\<rparr>, rng_drop (g_n g) r))
     \<and> g_maxIterations (NewGreedySolver N) = 10000
     \<and> (fst (greedy_Solve (NewGreedySolver N) r0)
          \<longleftrightarrow> (\<exists>k < 10000. countConflicts (fst (greedy_after k gi ri)) = 0))
     \<and> (\<not> fst (greedy_Solve (NewGreedySolver N) r0)
          \<longrightarrow> \<not> g_solved (fst (snd (greedy_Solve (NewGreedySolver N) r0))))"
proof -
  have c: "copy_go (replicate (g_n g) 0) (g_board g) = g_board g"
    using assms(1) by simp
  from assms(3) have g1: "g1 = g"
    using greedy_sweep_fst[of g "countConflicts g" "copy_go (replicate (g_n g) 0) (g_board g)"]
    by simp
  from assms(3) have best:
    "fold (greedy_consider g) (greedy_candidates g) (countConflicts g, g_board g)
       = (bestConflicts, bestBoard)"
    unfolding c greedy_sweep_consider by auto
  note cf = greedy_consider_fold[OF best refl]
  have cand: "{c \<in> set (greedy_candidates g). g_board g ! fst c \<noteq> int (snd c)}
      = {c. fst c < g_n g \<and> snd c < g_n g \<and> g_board g ! fst c \<noteq> int (snd c)}"
    by (auto simp: greedy_candidates_set)
  have m: "bestConflicts = Min (insert (countConflicts g)
          ((\<lambda>c. countConflicts (greedy_moved g c))
             ` {c. fst c < g_n g \<and> snd c < g_n g \<and> g_board g ! fst c \<noteq> int (snd c)}))"
    using cf[THEN conjunct2, THEN conjunct1] by (simp only: cand)
  have w: "if bestConflicts < countConflicts g
         then \<exists>c. fst c < g_n g \<and> snd c < g_n g \<and> g_board g ! fst c \<noteq> int (snd c)
                \<and> bestBoard = g_board (greedy_moved g c)
                \<and> countConflicts (greedy_moved g c) = bestConflicts
         else bestBoard = g_board g"
  proof (cases "bestConflicts < countConflicts g")
    case True
    with cf[THEN conjunct2, THEN conjunct2]
    obtain c where "c \<in> set (greedy_candidates g)" "g_board g ! fst c \<noteq> int (snd c)"
      "bestBoard = g_board (greedy_moved g c)" "countConflicts (greedy_moved g c) = bestConflicts"
      by auto
    then have "fst c < g_n g \<and> snd c < g_n g \<and> g_board g ! fst c \<noteq> int (snd c)
                \<and> bestBoard = g_board (greedy_moved g c)
                \<and> countConflicts (greedy_moved g c) = bestConflicts"
      by (simp add: greedy_candidates_set)
    then have "\<exists>c. fst c < g_n g \<and> snd c < g_n g \<and> g_board g ! fst c \<noteq> int (snd c)
                \<and> bestBoard = g_board (greedy_moved g c)
                \<and> countConflicts (greedy_moved g c) = bestConflicts"
      by (rule exI)
    then show ?thesis using True by (simp only: if_True)
  next
    case False
    with cf[THEN conjunct2, THEN conjunct2] show ?thesis by simp
  qed
  have st: "greedy_step g r =
         (if bestConflicts < countConflicts g then (g\<lparr>g_board := bestBoard\<rparr>, r)
          else (g\<lparr>g_board := map (\<lambda>i. int (r i mod g_n g)) [0 ..< g_n g]\<rparr>, rng_drop (g_n g) r))"
    using greedy_step_cases[OF assms(1) best, of r] randomInit_board[OF assms(1), of r] by simp
  have cap: "g_maxIterations (NewGreedySolver N) = 10000"
    by (simp add: NewGreedySolver_def)
  have mi: "g_maxIterations gi = 10000"
    using randomInit_frame[OF assms(4)] cap by simp
  have solve: "greedy_Solve (NewGreedySolver N) r0 = greedy_loop gi 0 ri"
    using assms(4) by (simp add: greedy_Solve_def)
  have res: "fst (greedy_Solve (NewGreedySolver N) r0)
          \<longleftrightarrow> (\<exists>k < 10000. countConflicts (fst (greedy_after k gi ri)) = 0)"
    unfolding solve greedy_loop_result[of gi 0 ri] mi by auto
  have unsolved: "\<not> fst (greedy_Solve (NewGreedySolver N) r0)
          \<longrightarrow> \<not> g_solved (fst (snd (greedy_Solve (NewGreedySolver N) r0)))"
  proof
    assume f: "\<not> fst (greedy_Solve (NewGreedySolver N) r0)"
    obtain b g' r' where l: "greedy_loop gi 0 ri = (b, g', r')" by (cases "greedy_loop gi 0 ri")
    with f solve have "greedy_loop gi 0 ri = (False, g', r')" by simp
    from greedy_loop_false[OF this] randomInit_frame[OF assms(4)]
    have "\<not> g_solved g'" by (simp add: NewGreedySolver_def)
    with l solve show "\<not> g_solved (fst (snd (greedy_Solve (NewGreedySolver N) r0)))" by simp
  qed
  from g1 m w st cap res unsolved show ?thesis by blast
qed

theorem greedy_best_improvement_iteration_witness:
  "fst (greedy_step ((NewGreedySolver 4)\<lparr>g_board := [1, 3, 0, 0]\<rparr>) (stream_of []))
     = (NewGreedySolver 4)\<lparr>g_board := [1, 3, 0, 2]\<rparr>
   \<and> (0::int) = Min (insert 1
          ((\<lambda>c. countConflicts (greedy_moved ((NewGreedySolver 4)\<lparr>g_board := [1, 3, 0, 0]\<rparr>) c))
             ` {c. fst c < 4 \<and> snd c < 4 \<and> [1, 3, 0, 0 :: int] ! fst c \<noteq> int (snd c)}))
   \<and> fst (greedy_Solve (NewGreedySolver 4) (stream_of [1, 3, 0, 2]))"
proof -
  let ?g = "(NewGreedySolver 4)\<lparr>g_board := [1, 3, 0, 0]\<rparr>"
  let ?r0 = "stream_of [1, 3, 0, 2]"
  have n: "g_n ?g = 4" and b: "g_board ?g = [1, 3, 0, 0]"
    by (simp_all add: NewGreedySolver_def)
  have len: "length (g_board ?g) = g_n ?g" by (simp add: NewGreedySolver_def)
  have cc: "countConflicts ?g = 1"
    by (simp add: countConflicts_def NewGreedySolver_def abs_go_def upt_conv_Cons)
  have ne: "countConflicts ?g \<noteq> 0" unfolding cc by simp
  have sw: "greedy_sweep ?g (countConflicts ?g) (copy_go (replicate (g_n ?g) 0) (g_board ?g))
            = (?g, 0, [1, 3, 0, 2])"
    unfolding cc n b
    by (simp add: greedy_sweep_def greedy_tryMove_def countConflicts_def NewGreedySolver_def
        abs_go_def upt_conv_Cons Let_def)
  have ri: "randomInit (NewGreedySolver 4) ?r0
            = (fst (randomInit (NewGreedySolver 4) ?r0), snd (randomInit (NewGreedySolver 4) ?r0))"
    by simp
  have solved: "fst (greedy_Solve (NewGreedySolver 4) ?r0)"
    by (simp add: greedy_Solve_def randomInit_def greedy_loop.simps countConflicts_def
        NewGreedySolver_def abs_go_def upt_conv_Cons Let_def Intn_def rng_tail_def stream_of_def)
  from greedy_best_improvement_iteration[OF len ne sw ri, of "stream_of []"] solved
  show ?thesis unfolding cc n b by simp
qed

section \<open>The simulated-annealing solver: properties\<close>

lemma pair_weight_le_one: "i \<noteq> j \<Longrightarrow> pair_weight b i j \<le> 1"
  by (auto simp: pair_weight_def)

lemma calculateConflictsForPosition_bounds:
  "0 \<le> calculateConflictsForPosition sa b col
   \<and> calculateConflictsForPosition sa b col \<le> int (sa_n sa)"
proof -
  have "(\<Sum>j = 0..<sa_n sa. if j \<noteq> col then pair_weight b col j else 0)
        \<le> (\<Sum>j = 0..<sa_n sa. 1)"
    by (rule sum_mono) (simp add: pair_weight_le_one)
  moreover have "0 \<le> (\<Sum>j = 0..<sa_n sa. if j \<noteq> col then pair_weight b col j else 0)"
    by (rule sum_nonneg) (simp add: pair_weight_nonneg)
  ultimately show ?thesis by (simp add: calculateConflictsForPosition_sum)
qed

lemma sa_scan_fold:
  assumes "fold (\<lambda>row (bestRow, minConflicts).
        if int row \<noteq> nb ! col then
          let tempBoard = copy_go (replicate (sa_n sa) 0) nb;
              tempBoard = tempBoard[col := int row];
              conflicts = calculateConflictsForPosition sa tempBoard col
          in if conflicts < minConflicts then (int row, conflicts) else (bestRow, minConflicts)
        else (bestRow, minConflicts)) rows (b0, m0) = (bestRow, m)"
    and "length nb = sa_n sa"
  shows "m \<le> m0
     \<and> (\<forall>row \<in> set rows. int row \<noteq> nb ! col \<longrightarrow> m \<le> sa_rowConflicts sa nb col row)
     \<and> (if m < m0
         then \<exists>row \<in> set rows. int row \<noteq> nb ! col \<and> bestRow = int row
                \<and> sa_rowConflicts sa nb col row = m
         else bestRow = b0)"
  using assms(1)
proof (induction rows arbitrary: b0 m0)
  case Nil
  then show ?case by simp
next
  case (Cons x rows)
  let ?step = "\<lambda>row (bestRow, minConflicts).
        if int row \<noteq> nb ! col then
          let tempBoard = copy_go (replicate (sa_n sa) 0) nb;
              tempBoard = tempBoard[col := int row];
              conflicts = calculateConflictsForPosition sa tempBoard col
          in if conflicts < minConflicts then (int row, conflicts) else (bestRow, minConflicts)
        else (bestRow, minConflicts)"
  have cp: "copy_go (replicate (sa_n sa) 0) nb = nb" using assms(2) by simp
  have step: "?step x (b0, m0)
      = (if int x \<noteq> nb ! col \<and> sa_rowConflicts sa nb col x < m0
         then (int x, sa_rowConflicts sa nb col x) else (b0, m0))"
    by (simp add: Let_def cp sa_rowConflicts_def)
  obtain b1 m1 where s1: "?step x (b0, m0) = (b1, m1)" by (cases "?step x (b0, m0)")
  from Cons.prems s1 have rest: "fold ?step rows (b1, m1) = (bestRow, m)" by simp
  note IH = Cons.IH[OF rest]
  note ih1 = IH[THEN conjunct1]
  note ih2 = IH[THEN conjunct2, THEN conjunct1]
  note ih3 = IH[THEN conjunct2, THEN conjunct2]
  show ?case
  proof (cases "int x \<noteq> nb ! col \<and> sa_rowConflicts sa nb col x < m0")
    case True
    with step s1 have e: "b1 = int x" "m1 = sa_rowConflicts sa nb col x" by simp_all
    have a: "m \<le> m0" using ih1 e True by simp
    have b: "\<forall>row \<in> set (x # rows). int row \<noteq> nb ! col \<longrightarrow> m \<le> sa_rowConflicts sa nb col row"
      using ih1 ih2 e by simp
    have lt: "m < m0" using ih1 e True by simp
    have c: "\<exists>row \<in> set (x # rows). int row \<noteq> nb ! col \<and> bestRow = int row
                \<and> sa_rowConflicts sa nb col row = m"
    proof (cases "m < m1")
      case True
      with ih3 show ?thesis by auto
    next
      case False
      with ih3 ih1 have "bestRow = b1" "m = m1" by simp_all
      with e True show ?thesis by simp
    qed
    from a b c lt show ?thesis by simp
  next
    case False
    with step s1 have e: "b1 = b0" "m1 = m0" by simp_all
    have b: "\<forall>row \<in> set (x # rows). int row \<noteq> nb ! col \<longrightarrow> m \<le> sa_rowConflicts sa nb col row"
      using ih1 ih2 e False by auto
    from ih1 ih3 b e show ?thesis by auto
  qed
qed

lemma sa_scanRows_result:
  assumes "sa_scanRows sa nb col (b0, m0) = (bestRow, m)" and "length nb = sa_n sa"
  shows "m \<le> m0
     \<and> (\<forall>row < sa_n sa. int row \<noteq> nb ! col \<longrightarrow> m \<le> sa_rowConflicts sa nb col row)
     \<and> (if m < m0
         then \<exists>row < sa_n sa. int row \<noteq> nb ! col \<and> bestRow = int row
                \<and> sa_rowConflicts sa nb col row = m
         else bestRow = b0)"
  using sa_scan_fold[OF assms[unfolded sa_scanRows_def]] by (auto split: if_splits)

lemma findConflictedQueens_filter:
  "findConflictedQueens sa
     = filter (\<lambda>i. calculateConflictsForPosition sa (sa_board sa) i > 0) [0 ..< sa_n sa]"
proof -
  have "\<And>acc. fold (\<lambda>i conflicted.
        if calculateConflictsForPosition sa (sa_board sa) i > 0 then conflicted @ [i]
        else conflicted) xs acc
      = acc @ filter (\<lambda>i. calculateConflictsForPosition sa (sa_board sa) i > 0) xs" for xs
    by (induction xs) simp_all
  then show ?thesis by (simp add: findConflictedQueens_def)
qed

lemmas sa_eval_defs =
  generateSmartNeighbor_def findConflictedQueens_def sa_scanRows_def
  calculateConflictsForPosition_def calculateCostForBoard_def NewSimulatedAnnealingSolver_def
  Float64_def Intn_def abs_go_def copy_go_def upt_conv_Cons Let_def

lemma generateSmartNeighbor_length:
  "generateSmartNeighbor sa r = Some (nb, r') \<Longrightarrow> length nb = sa_n sa"
  by (auto simp: generateSmartNeighbor_def Let_def split: if_splits prod.splits option.splits)

lemma Float64_range: "0 \<le> fst (Float64 r) \<and> fst (Float64 r) < 1"
proof -
  let ?m = "r 0 mod 2 ^ 53" and ?s = "r 0 div 2 ^ 53 mod 11"
  have "?s \<le> 10" by (simp add: less_Suc_eq_le[symmetric])
  then have s: "(2::nat) ^ ?s \<le> 2 ^ 10" by (rule power_increasing) simp
  have m: "?m < 2 ^ 53" by simp
  from m s have "?m * 2 ^ ?s < 2 ^ 53 * 2 ^ 10" by (rule mult_less_le_imp_less) simp_all
  then have "?m * 2 ^ ?s < (2 ^ 63 :: nat)" by simp
  then have "real (?m * 2 ^ ?s) < real (2 ^ 63 :: nat)" by (rule of_nat_less_iff[THEN iffD2])
  then have "real ?m * 2 ^ ?s < 2 ^ 63" by simp
  then show ?thesis by (simp add: Float64_def)
qed

section \<open>Claims about the simulated-annealing solver\<close>

text \<open>
  Claim C4 (amended).  In an iteration of the simulated-annealing loop the neighbor
  \<open>neighbor\<close> just generated, of cost \<open>neighborCost = calculateCostForBoard neighbor\<close>, replaces
  the current board exactly when \<open>deltaCost = neighborCost - currentCost\<close> is at most 0 or the
  \<open>float64\<close> value \<open>math.Exp(-float64(deltaCost) / temperature)\<close> is strictly greater than a
  fresh draw from \<open>[0,1)\<close> (drawn only when \<open>deltaCost > 0\<close>).  That value is what \<open>float64\<close>
  arithmetic and the library return, whatever it is; where it is 0 (the exponential below
  the least positive \<open>float64\<close>), a worse neighbor is rejected on every draw, the draw 0
  included.  On acceptance the current cost becomes the neighbor's cost, and the best board
  and cost become the neighbor's when that cost is strictly below the best cost so far;
  otherwise nothing changes.  The iteration then goes on to its cooling step with these
  values.
\<close>

theorem sa_metropolis_acceptance:
  assumes "length (sa_board sa) = sa_n sa" and "length bestBoard = sa_n sa"
    and "iter < sa_maxIterations sa" and "temperature > sa_minTemp sa" and "currentCost \<noteq> 0"
    and "generateSmartNeighbor sa r = Some (neighbor, r1)"
    and "neighborCost = calculateCostForBoard sa neighbor"
    and "deltaCost = neighborCost - currentCost"
    and "sa_accept fp sa neighbor neighborCost currentCost bestCost bestBoard temperature r1
           = (sa', currentCost', bestCost', bestBoard', r2)"
  shows "(if deltaCost \<le> 0 \<or> acceptanceProbability fp sa deltaCost temperature > fst (Float64 r1)
          then sa' = sa\<lparr>sa_board := neighbor\<rparr> \<and> currentCost' = neighborCost
             \<and> (if neighborCost < bestCost
                 then bestCost' = neighborCost \<and> bestBoard' = neighbor
                 else bestCost' = bestCost \<and> bestBoard' = bestBoard)
          else sa' = sa \<and> currentCost' = currentCost \<and> bestCost' = bestCost
             \<and> bestBoard' = bestBoard)
       \<and> acceptanceProbability fp sa deltaCost temperature
            = f64_Exp fp (f64_div fp (- real_of_int deltaCost) temperature)
       \<and> (0 < deltaCost \<and> acceptanceProbability fp sa deltaCost temperature = 0
            \<longrightarrow> sa' = sa \<and> currentCost' = currentCost \<and> bestCost' = bestCost
                \<and> bestBoard' = bestBoard)
       \<and> 0 \<le> fst (Float64 r1) \<and> fst (Float64 r1) < 1
       \<and> r2 = (if deltaCost \<le> 0 then r1 else snd (Float64 r1))
       \<and> sa_loop fp sa iter temperature currentCost bestCost bestBoard r
           = (case sa_cool fp sa' iter currentCost' bestCost' bestBoard' temperature of
                (sa2, currentCost2, temperature2) \<Rightarrow>
                  sa_loop fp sa2 (iter + 1) temperature2 currentCost2 bestCost' bestBoard' r2)"
proof -
  have ln: "length neighbor = sa_n sa"
    by (rule generateSmartNeighbor_length[OF assms(6)])
  have c1: "copy_go (sa_board sa) neighbor = neighbor" using ln assms(1) by simp
  have c2: "copy_go bestBoard neighbor = neighbor" using ln assms(2) by simp
  obtain u r' where f: "Float64 r1 = (u, r')" by (cases "Float64 r1")
  have step: "(if deltaCost \<le> 0 \<or> acceptanceProbability fp sa deltaCost temperature > fst (Float64 r1)
          then sa' = sa\<lparr>sa_board := neighbor\<rparr> \<and> currentCost' = neighborCost
             \<and> (if neighborCost < bestCost
                 then bestCost' = neighborCost \<and> bestBoard' = neighbor
                 else bestCost' = bestCost \<and> bestBoard' = bestBoard)
          else sa' = sa \<and> currentCost' = currentCost \<and> bestCost' = bestCost
             \<and> bestBoard' = bestBoard)"
    using assms(9) f c1 c2 unfolding sa_accept_def assms(8)[symmetric]
    by (auto simp: Let_def split: if_splits)
  note range = Float64_range[of r1]
  have zero: "0 < deltaCost \<and> acceptanceProbability fp sa deltaCost temperature = 0
            \<longrightarrow> sa' = sa \<and> currentCost' = currentCost \<and> bestCost' = bestCost
                \<and> bestBoard' = bestBoard"
  proof
    assume a: "0 < deltaCost \<and> acceptanceProbability fp sa deltaCost temperature = 0"
    with range
    have "\<not> (deltaCost \<le> 0 \<or> acceptanceProbability fp sa deltaCost temperature > fst (Float64 r1))"
      by simp
    with step show "sa' = sa \<and> currentCost' = currentCost \<and> bestCost' = bestCost
                \<and> bestBoard' = bestBoard"
      by (simp only: if_False)
  qed
  have draw: "r2 = (if deltaCost \<le> 0 then r1 else snd (Float64 r1))"
    using assms(9) f unfolding sa_accept_def assms(8)[symmetric]
    by (auto simp: Let_def split: if_splits)
  have loop: "sa_loop fp sa iter temperature currentCost bestCost bestBoard r
           = (case sa_cool fp sa' iter currentCost' bestCost' bestBoard' temperature of
                (sa2, currentCost2, temperature2) \<Rightarrow>
                  sa_loop fp sa2 (iter + 1) temperature2 currentCost2 bestCost' bestBoard' r2)"
    using assms(3,4,5,6) assms(9)[unfolded assms(7)]
    by (simp add: sa_loop.simps[of fp sa iter temperature currentCost bestCost bestBoard r])
  have prob: "acceptanceProbability fp sa deltaCost temperature
            = f64_Exp fp (f64_div fp (- real_of_int deltaCost) temperature)"
    by (simp add: acceptanceProbability_def)
  from step prob zero range draw loop show ?thesis by blast
qed

text \<open>
  The claim as it stands, with the exponential function for the \<open>float64\<close> value, fails where
  \<open>math.Exp\<close> underflows.  The board \<open>[1,0,2,3,4,5,6,7]\<close> has 16 conflicts and its neighbor by
  the swap of the first two columns 28, so \<open>deltaCost = 12\<close>; at the temperature \<open>1/64\<close>,
  above \<open>minTemp\<close>, the quotient is \<open>-768\<close> and \<open>math.Exp\<close> returns 0.  On the draw 0 the
  exponential is greater than the draw, and the loop keeps the board.
\<close>

theorem sa_metropolis_acceptance_counterexample:
  "generateSmartNeighbor ((NewSimulatedAnnealingSolver 8)\<lparr>sa_board := [1, 0, 2, 3, 4, 5, 6, 7]\<rparr>)
       (stream_of [0, 0, 1, 0])
     = Some ([0, 1, 2, 3, 4, 5, 6, 7], stream_of [0])
   \<and> calculateCostForBoard (NewSimulatedAnnealingSolver 8) [1, 0, 2, 3, 4, 5, 6, 7] = 16
   \<and> calculateCostForBoard (NewSimulatedAnnealingSolver 8) [0, 1, 2, 3, 4, 5, 6, 7] = 28
   \<and> sa_minTemp (NewSimulatedAnnealingSolver 8) < 1 / 64
   \<and> fst (Float64 (stream_of [0])) < exp (- real_of_int (28 - 16) / (1 / 64))
   \<and> acceptanceProbability f64_run (NewSimulatedAnnealingSolver 8) (28 - 16) (1 / 64) = 0
   \<and> sa_accept f64_run ((NewSimulatedAnnealingSolver 8)\<lparr>sa_board := [1, 0, 2, 3, 4, 5, 6, 7]\<rparr>)
        [0, 1, 2, 3, 4, 5, 6, 7] 28 16 16 [1, 0, 2, 3, 4, 5, 6, 7] (1 / 64) (stream_of [0])
     = ((NewSimulatedAnnealingSolver 8)\<lparr>sa_board := [1, 0, 2, 3, 4, 5, 6, 7]\<rparr>, 16, 16,
        [1, 0, 2, 3, 4, 5, 6, 7], stream_of [])"
proof -
  let ?sa = "(NewSimulatedAnnealingSolver 8)\<lparr>sa_board := [1, 0, 2, 3, 4, 5, 6, 7]\<rparr>"
  have redraw: "sa_redrawPos2 8 0 (Suc 0) (stream_of [0]) = Some (Suc 0, stream_of [0])"
    by (subst sa_redrawPos2.simps) simp
  have gen: "generateSmartNeighbor ?sa (stream_of [0, 0, 1, 0])
     = Some ([0, 1, 2, 3, 4, 5, 6, 7], stream_of [0])"
    by (simp add: generateSmartNeighbor_def NewSimulatedAnnealingSolver_def Float64_def Intn_def
        copy_go_def replicate_numeral Let_def redraw)
  have c1: "calculateCostForBoard (NewSimulatedAnnealingSolver 8) [1, 0, 2, 3, 4, 5, 6, 7] = 16"
    by (simp add: calculateCostForBoard_def NewSimulatedAnnealingSolver_def abs_go_def
        upt_conv_Cons)
  have c2: "calculateCostForBoard (NewSimulatedAnnealingSolver 8) [0, 1, 2, 3, 4, 5, 6, 7] = 28"
    by (simp add: calculateCostForBoard_def NewSimulatedAnnealingSolver_def abs_go_def
        upt_conv_Cons)
  have t: "sa_minTemp (NewSimulatedAnnealingSolver 8) < 1 / 64"
    by (simp add: NewSimulatedAnnealingSolver_def)
  have e: "fst (Float64 (stream_of [0])) < exp (- real_of_int (28 - 16) / (1 / 64))"
    by (simp add: Float64_def)
  have p: "acceptanceProbability f64_run (NewSimulatedAnnealingSolver 8) (28 - 16) (1 / 64) = 0"
    by (simp add: acceptanceProbability_def f64_run_def)
  have a: "sa_accept f64_run ?sa [0, 1, 2, 3, 4, 5, 6, 7] 28 16 16 [1, 0, 2, 3, 4, 5, 6, 7]
        (1 / 64) (stream_of [0])
     = (?sa, 16, 16, [1, 0, 2, 3, 4, 5, 6, 7], stream_of [])"
    by (simp add: sa_accept_def acceptanceProbability_def f64_run_def Float64_def Let_def)
  from gen c1 c2 t e p a show ?thesis by (intro conjI)
qed

theorem sa_metropolis_acceptance_witness:
  "sa_accept f64_run ((NewSimulatedAnnealingSolver 3)\<lparr>sa_board := [0, 2, 1]\<rparr>)
          [0, 0, 1] 2 1 1 [0, 2, 1] 8 (stream_of [0])
     = ((NewSimulatedAnnealingSolver 3)\<lparr>sa_board := [0, 0, 1]\<rparr>, 2, 1, [0, 2, 1], stream_of [])"
proof -
  let ?sa = "(NewSimulatedAnnealingSolver 3)\<lparr>sa_board := [0, 2, 1]\<rparr>"
  let ?r = "stream_of [96071992547409920, 0, 0, 0]"
  let ?res = "sa_accept f64_run ?sa [0, 0, 1] 2 1 1 [0, 2, 1] 8 (stream_of [0])"
  have h1: "length (sa_board ?sa) = sa_n ?sa" by (simp add: NewSimulatedAnnealingSolver_def)
  have h2: "length [0, 2, 1 :: int] = sa_n ?sa" by (simp add: NewSimulatedAnnealingSolver_def)
  have h3: "0 < sa_maxIterations ?sa" by (simp add: NewSimulatedAnnealingSolver_def)
  have h4: "8 > sa_minTemp ?sa" by (simp add: NewSimulatedAnnealingSolver_def)
  have h5: "(1::int) \<noteq> 0" by simp
  have h6: "generateSmartNeighbor ?sa ?r = Some ([0, 0, 1], stream_of [0])"
    by (simp add: sa_eval_defs)
  have h7: "2 = calculateCostForBoard ?sa [0, 0, 1]" by (simp add: sa_eval_defs)
  have h8: "(1::int) = 2 - 1" by simp
  have h9: "?res = (fst ?res, fst (snd ?res), fst (snd (snd ?res)), fst (snd (snd (snd ?res))),
                    snd (snd (snd (snd ?res))))"
    by simp
  have p: "acceptanceProbability f64_run ?sa 1 8 = exp (- 1 / 8)"
    by (simp add: acceptanceProbability_def f64_run_def)
  have acc: "1 \<le> (0::int) \<or> acceptanceProbability f64_run ?sa 1 8 > fst (Float64 (stream_of [0]))"
    unfolding p by (simp add: Float64_def)
  have tl: "snd (Float64 (stream_of [0])) = stream_of []" by (simp add: Float64_def)
  from sa_metropolis_acceptance[OF h1 h2 h3 h4 h5 h6 h7 h8 h9] acc tl
  have "fst ?res = ?sa\<lparr>sa_board := [0, 0, 1]\<rparr> \<and> fst (snd ?res) = 2
      \<and> fst (snd (snd ?res)) = 1 \<and> fst (snd (snd (snd ?res))) = [0, 2, 1]
      \<and> snd (snd (snd (snd ?res))) = stream_of []"
    by simp
  then have "?res = (?sa\<lparr>sa_board := [0, 0, 1]\<rparr>, 2, 1, [0, 2, 1], stream_of [])"
    by (metis h9)
  then show ?thesis by simp
qed

text \<open>
  Claim C7.  The second strategy of neighbor generation at the board \<open>[0,2,1]\<close>, which
  \<open>smartInit\<close> produces on the draws 0, 1, 1.  The strategy draw lies in \<open>[0.6, 0.8)\<close>, the
  columns in conflict are 1 and 2, and the next draw picks column 1, whose queen stands on
  row 2 with one conflict.  The scan passes over the row the queen stands on and starts from
  \<open>N * N\<close>, so it compares rows 0 and 1 only, with two conflicts each, and the queen moves to
  row 0: the row adopted does not have the least count over the rows \<open>0..N-1\<close>, which row 2
  has.
\<close>

theorem sa_move_conflicted_queen_worsens:
  "sa_board (fst (smartInit (NewSimulatedAnnealingSolver 3) (stream_of [0, 1, 1]))) = [0, 2, 1]
   \<and> f64_0_6 \<le> fst (Float64 (stream_of [96071992547409920, 0, 0]))
   \<and> fst (Float64 (stream_of [96071992547409920, 0, 0])) < f64_0_8
   \<and> findConflictedQueens ((NewSimulatedAnnealingSolver 3)\<lparr>sa_board := [0, 2, 1]\<rparr>) = [1, 2]
   \<and> map_option fst (generateSmartNeighbor ((NewSimulatedAnnealingSolver 3)\<lparr>sa_board := [0, 2, 1]\<rparr>)
         (stream_of [96071992547409920, 0, 0])) = Some [0, 0, 1]
   \<and> calculateConflictsForPosition ((NewSimulatedAnnealingSolver 3)\<lparr>sa_board := [0, 2, 1]\<rparr>)
         [0, 0, 1] 1 = 2
   \<and> calculateConflictsForPosition ((NewSimulatedAnnealingSolver 3)\<lparr>sa_board := [0, 2, 1]\<rparr>)
         [0, 1, 1] 1 = 2
   \<and> calculateConflictsForPosition ((NewSimulatedAnnealingSolver 3)\<lparr>sa_board := [0, 2, 1]\<rparr>)
         [0, 2, 1] 1 = 1"
proof -
  have "sa_board (fst (smartInit (NewSimulatedAnnealingSolver 3) (stream_of [0, 1, 1]))) = [0, 2, 1]"
    by (simp add: smartInit_def Perm_def Intn_def NewSimulatedAnnealingSolver_def copy_go_def
        upt_conv_Cons replicate_numeral split_beta)
  then show ?thesis by (simp add: sa_eval_defs)
qed

section \<open>The genetic solver: order crossover\<close>

lemma ox_copySegment_result:
  assumes "ox_copySegment parent1 s e (c0, u0) = (c, u)" and "e < length c0"
  shows "length c = length c0
     \<and> (\<forall>i < length c0. c ! i = (if s \<le> i \<and> i \<le> e then parent1 ! i else c0 ! i))
     \<and> (\<forall>v. u v \<longleftrightarrow> u0 v \<or> v \<in> (\<lambda>i. parent1 ! i) ` {s..e})"
proof -
  have gen: "\<And>c0 u0 c u. fold (\<lambda>i (child, used). (child[i := parent1 ! i], used(parent1 ! i := True)))
           xs (c0, u0) = (c, u) \<Longrightarrow> \<forall>i \<in> set xs. i < length c0 \<Longrightarrow>
        length c = length c0
        \<and> (\<forall>i < length c0. c ! i = (if i \<in> set xs then parent1 ! i else c0 ! i))
        \<and> (\<forall>v. u v \<longleftrightarrow> u0 v \<or> v \<in> (\<lambda>i. parent1 ! i) ` set xs)" for xs
  proof (induction xs)
    case Nil
    then show ?case by simp
  next
    case (Cons x xs)
    from Cons.prems(1)
    have rest: "fold (\<lambda>i (child, used). (child[i := parent1 ! i], used(parent1 ! i := True)))
           xs (c0[x := parent1 ! x], u0(parent1 ! x := True)) = (c, u)"
      by (simp only: fold_simps comp_apply prod.case)
    from Cons.prems(2) have b: "\<forall>i \<in> set xs. i < length (c0[x := parent1 ! x])" by simp
    note IH = Cons.IH[OF rest b]
    from Cons.prems(2) have x: "x < length c0" by simp
    have l: "length c = length c0" using IH by simp
    have v: "\<forall>i < length c0. c ! i = (if i \<in> set (x # xs) then parent1 ! i else c0 ! i)"
    proof (intro allI impI)
      fix i assume i: "i < length c0"
      with IH have "c ! i = (if i \<in> set xs then parent1 ! i else (c0[x := parent1 ! x]) ! i)"
        by simp
      with i x show "c ! i = (if i \<in> set (x # xs) then parent1 ! i else c0 ! i)"
        by (auto simp: nth_list_update)
    qed
    have u: "\<forall>v. u v \<longleftrightarrow> u0 v \<or> v \<in> (\<lambda>i. parent1 ! i) ` set (x # xs)"
      using IH by auto
    from l v u show ?case by blast
  qed
  have b: "\<forall>i \<in> set [s ..< e + 1]. i < length c0" using assms(2) by auto
  have seg: "set [s ..< e + 1] = {s..e}" by auto
  from gen[OF assms(1)[unfolded ox_copySegment_def] b] show ?thesis
    unfolding seg by simp
qed

lemma ox_fill_fold:
  assumes "fold (\<lambda>i (child, childIndex).
        let parent2Index = (e + 1 + i) mod n
        in if \<not> used (parent2 ! parent2Index)
           then (child[childIndex := parent2 ! parent2Index], (childIndex + 1) mod n)
           else (child, childIndex)) xs (c, ci) = (c', ci')"
    and "ci < n" and "length c = n"
    and "length (filter (\<lambda>i. \<not> used (ox_source n parent2 e i)) xs) \<le> n"
  shows "length c' = n
     \<and> ci' = (ci + length (filter (\<lambda>i. \<not> used (ox_source n parent2 e i)) xs)) mod n
     \<and> (\<forall>k < length (filter (\<lambda>i. \<not> used (ox_source n parent2 e i)) xs).
           c' ! ((ci + k) mod n)
             = ox_source n parent2 e (filter (\<lambda>i. \<not> used (ox_source n parent2 e i)) xs ! k))
     \<and> (\<forall>p < n. (\<forall>k < length (filter (\<lambda>i. \<not> used (ox_source n parent2 e i)) xs).
                       p \<noteq> (ci + k) mod n) \<longrightarrow> c' ! p = c ! p)"
  using assms
proof (induction xs arbitrary: c ci)
  case Nil
  then show ?case by simp
next
  case (Cons x xs)
  let ?P = "\<lambda>i. \<not> used (ox_source n parent2 e i)"
  let ?step = "\<lambda>i (child, childIndex).
        let parent2Index = (e + 1 + i) mod n
        in if \<not> used (parent2 ! parent2Index)
           then (child[childIndex := parent2 ! parent2Index], (childIndex + 1) mod n)
           else (child, childIndex)"
  show ?case
  proof (cases "?P x")
    case False
    with Cons.prems(1) have rest: "fold ?step xs (c, ci) = (c', ci')"
      by (simp add: ox_source_def Let_def)
    from False Cons.prems(4) have le: "length (filter ?P xs) \<le> n" by simp
    from Cons.IH[OF rest Cons.prems(2,3) le] False show ?thesis by simp
  next
    case True
    let ?u = "filter ?P xs"
    let ?c1 = "c[ci := ox_source n parent2 e x]"
    let ?ci1 = "(ci + 1) mod n"
    from True Cons.prems(1) have rest: "fold ?step xs (?c1, ?ci1) = (c', ci')"
      by (simp add: ox_source_def Let_def)
    from True Cons.prems(4) have le: "Suc (length ?u) \<le> n" by simp
    then have le': "length ?u \<le> n" by simp
    have npos: "0 < n" using Cons.prems(2) by simp
    have ci1: "?ci1 < n" using npos by simp
    have len1: "length ?c1 = n" using Cons.prems(3) by simp
    note IH = Cons.IH[OF rest ci1 len1 le']
    have shift: "\<And>k. (?ci1 + k) mod n = (ci + Suc k) mod n"
      by (simp add: mod_add_left_eq)
    have f: "filter ?P (x # xs) = x # ?u" using True by simp
    have a: "length c' = n" using IH by simp
    have b: "ci' = (ci + length (filter ?P (x # xs))) mod n"
      using IH shift[of "length ?u"] unfolding f by simp
    have notback: "\<And>k. k < length ?u \<Longrightarrow> ci \<noteq> (ci + Suc k) mod n"
    proof
      fix k assume k: "k < length ?u" and eq: "ci = (ci + Suc k) mod n"
      from k le have sk: "Suc k < n" by simp
      have "(ci + Suc k) mod n = (if ci + Suc k < n then ci + Suc k else ci + Suc k - n)"
        using Cons.prems(2) sk by (simp add: mod_if)
      with eq sk Cons.prems(2) show False by (auto split: if_splits)
    qed
    have at_ci: "c' ! ci = ox_source n parent2 e x"
    proof -
      have "\<forall>k < length ?u. ci \<noteq> (?ci1 + k) mod n"
      proof (intro allI impI)
        fix k assume "k < length ?u"
        from notback[OF this] show "ci \<noteq> (?ci1 + k) mod n" unfolding shift .
      qed
      with IH Cons.prems(2) have "c' ! ci = ?c1 ! ci" by blast
      with Cons.prems(2,3) show ?thesis by simp
    qed
    have c: "\<forall>k < length (filter ?P (x # xs)).
           c' ! ((ci + k) mod n) = ox_source n parent2 e (filter ?P (x # xs) ! k)"
    proof (intro allI impI)
      fix k assume k: "k < length (filter ?P (x # xs))"
      show "c' ! ((ci + k) mod n) = ox_source n parent2 e (filter ?P (x # xs) ! k)"
      proof (cases k)
        case 0
        with at_ci Cons.prems(2) show ?thesis unfolding f by simp
      next
        case (Suc j)
        with k have j: "j < length ?u" unfolding f by simp
        with IH have "c' ! ((?ci1 + j) mod n) = ox_source n parent2 e (?u ! j)" by blast
        then have "c' ! ((ci + Suc j) mod n) = ox_source n parent2 e (?u ! j)"
          unfolding shift .
        then show ?thesis unfolding f Suc by simp
      qed
    qed
    have d: "\<forall>p < n. (\<forall>k < length (filter ?P (x # xs)). p \<noteq> (ci + k) mod n) \<longrightarrow> c' ! p = c ! p"
    proof (intro allI impI)
      fix p assume p: "p < n" and ne: "\<forall>k < length (filter ?P (x # xs)). p \<noteq> (ci + k) mod n"
      from ne[rule_format, of 0] Cons.prems(2) have pci: "p \<noteq> ci" unfolding f by simp
      have "\<forall>k < length ?u. p \<noteq> (?ci1 + k) mod n"
      proof (intro allI impI)
        fix k assume "k < length ?u"
        then have "Suc k < length (filter ?P (x # xs))" unfolding f by simp
        from ne[rule_format, OF this] show "p \<noteq> (?ci1 + k) mod n" unfolding shift .
      qed
      with IH p have "c' ! p = ?c1 ! p" by blast
      with pci show "c' ! p = c ! p" by simp
    qed
    from a b c d show ?thesis by blast
  qed
qed

lemma is_permutation_set:
  assumes "is_permutation N b"
  shows "set b = {0..<int N}"
proof -
  from assms have len: "length b = N" and d: "distinct b"
    and r: "\<forall>v \<in> set b. 0 \<le> v \<and> v < int N"
    by (simp_all add: is_permutation_def list_all_iff)
  from r have sub: "set b \<subseteq> {0..<int N}" by auto
  have "card (set b) = N" using d len by (simp add: distinct_card)
  then have "card (set b) = card {0..<int N}" by simp
  with sub show ?thesis by (simp add: card_subset_eq)
qed

lemma permutation_by_cover:
  assumes "length b = N" and "{0..<int N} \<subseteq> set b"
  shows "is_permutation N b \<and> set b = {0..<int N}"
proof -
  have "N = card {0..<int N}" by simp
  also have "\<dots> \<le> card (set b)" by (rule card_mono) (use assms(2) in simp_all)
  finally have ge: "N \<le> card (set b)" .
  have "card (set b) \<le> length b" by (rule card_length)
  with ge assms(1) have c: "card (set b) = length b" by simp
  then have d: "distinct b" by (rule card_distinct)
  have "card {0..<int N} = card (set b)" using c assms(1) by simp
  with assms(2) have s: "{0..<int N} = set b" by (simp add: card_subset_eq)
  with assms(1) d show ?thesis by (auto simp: is_permutation_def list_all_iff)
qed

lemma ox_source_rotate:
  assumes "length parent2 = n" and "0 < n"
  shows "map (ox_source n parent2 e) [0 ..< n] = rotate (e + 1) parent2"
proof (rule nth_equalityI)
  show "length (map (ox_source n parent2 e) [0 ..< n]) = length (rotate (e + 1) parent2)"
    using assms by simp
next
  fix i assume "i < length (map (ox_source n parent2 e) [0 ..< n])"
  then have i: "i < n" by simp
  have "rotate (e + 1) parent2 ! i = parent2 ! ((e + 1 + i) mod length parent2)"
    using i assms(1) by (intro nth_rotate) simp
  with i assms show "map (ox_source n parent2 e) [0 ..< n] ! i = rotate (e + 1) parent2 ! i"
    by (simp add: ox_source_def del: rotate_Suc)
qed

lemma ox_segment_card:
  assumes "is_permutation n parent1" and "s \<le> e" and "e < n"
  shows "card ((\<lambda>i. parent1 ! i) ` {s..e}) = e - s + 1"
proof -
  from assms(1) have d: "distinct parent1" and len: "length parent1 = n"
    by (simp_all add: is_permutation_def)
  have "inj_on (\<lambda>i. parent1 ! i) {s..e}"
    by (rule inj_on_nth[OF d]) (use assms(3) len in auto)
  then have "card ((\<lambda>i. parent1 ! i) ` {s..e}) = card {s..e}" by (rule card_image)
  with assms(2) show ?thesis by simp
qed

lemma ox_unused_count:
  assumes p1: "is_permutation n parent1" and p2: "is_permutation n parent2"
    and se: "s \<le> e" and en: "e < n"
    and used: "\<forall>v. used v \<longleftrightarrow> v \<in> (\<lambda>i. parent1 ! i) ` {s..e}"
  shows "length (filter (\<lambda>i. \<not> used (ox_source n parent2 e i)) [0 ..< n]) = n - (e - s + 1)"
proof -
  let ?S = "(\<lambda>i. parent1 ! i) ` {s..e}"
  have npos: "0 < n" using en by simp
  from p1 p2 have l1: "length parent1 = n" and l2: "length parent2 = n"
    and d2: "distinct parent2"
    by (simp_all add: is_permutation_def)
  have "length (filter (\<lambda>i. \<not> used (ox_source n parent2 e i)) [0 ..< n])
      = length (filter (\<lambda>v. \<not> used v) (map (ox_source n parent2 e) [0 ..< n]))"
    by (simp add: filter_map comp_def)
  also have "\<dots> = length (filter (\<lambda>v. \<not> used v) (rotate (e + 1) parent2))"
    by (simp only: ox_source_rotate[OF l2 npos])
  also have "\<dots> = card ({v. \<not> used v} \<inter> set (rotate (e + 1) parent2))"
    by (rule distinct_length_filter) (simp add: d2)
  also have "{v. \<not> used v} \<inter> set (rotate (e + 1) parent2) = set parent2 - ?S"
    using used by auto
  also have "card (set parent2 - ?S) = card (set parent2) - card ?S"
  proof (rule card_Diff_subset)
    show "finite ?S" by simp
    have "?S \<subseteq> set parent1" using en l1 by auto
    then show "?S \<subseteq> set parent2"
      by (simp add: is_permutation_set[OF p1] is_permutation_set[OF p2])
  qed
  also have "card (set parent2) = n" using d2 l2 by (simp add: distinct_card)
  also have "card ?S = e - s + 1" by (rule ox_segment_card[OF p1 se en])
  finally show ?thesis .
qed

lemma ox_fill_position:
  fixes s p e n k :: nat
  assumes "s \<le> p" and "p \<le> e" and "e < n" and "k < n - (e - s + 1)"
  shows "p \<noteq> (e + 1 + k) mod n"
proof (cases "e + 1 + k < n")
  case True
  then have "(e + 1 + k) mod n = e + 1 + k" by (rule mod_less)
  with assms show ?thesis by simp
next
  case False
  then have "(e + 1 + k) mod n = (e + 1 + k - n) mod n" by (simp add: le_mod_geq)
  also have "\<dots> = e + 1 + k - n" using assms by simp
  finally show ?thesis using assms False by simp
qed

section \<open>Claims about the genetic solver\<close>

text \<open>
  Claim C5.  For two parents of length \<open>N\<close> that are permutations of \<open>[0,N)\<close>,
  \<open>GeneticSolver.orderCrossover\<close> returns a child of length \<open>N\<close> that is a permutation of
  \<open>[0,N)\<close>, whatever the two draws are: with \<open>[s,e]\<close> the drawn segment after the ordering
  swap, the child agrees with \<open>parent1\<close> on \<open>[s,e]\<close>, and the remaining positions, taken
  cyclically from \<open>e + 1\<close>, hold the values of \<open>parent2\<close> not in the segment, in the cyclic
  order of \<open>parent2\<close> from \<open>e + 1\<close>.
\<close>

theorem orderCrossover_yields_permutation:
  assumes "0 < ga_n ga"
    and "is_permutation (ga_n ga) parent1" and "is_permutation (ga_n ga) parent2"
    and "d1 = fst (Intn (ga_n ga) r)"
    and "d2 = fst (Intn (ga_n ga) (snd (Intn (ga_n ga) r)))"
    and "s = min d1 d2" and "e = max d1 d2"
    and "child = fst (orderCrossover ga parent1 parent2 r)"
  shows "length child = ga_n ga \<and> is_permutation (ga_n ga) child \<and> set child = {0..<int (ga_n ga)}
     \<and> (\<forall>i. s \<le> i \<and> i \<le> e \<longrightarrow> child ! i = parent1 ! i)
     \<and> (\<forall>k < ga_n ga - (e - s + 1).
           child ! ((e + 1 + k) mod ga_n ga)
             = filter (\<lambda>v. v \<notin> (\<lambda>i. parent1 ! i) ` {s..e}) (rotate (e + 1) parent2) ! k)"
proof -
  let ?n = "ga_n ga"
  let ?S = "(\<lambda>i. parent1 ! i) ` {s..e}"
  let ?src = "ox_source ?n parent2 e"
  obtain r1 where i1: "Intn ?n r = (d1, r1)" using assms(4) by (cases "Intn ?n r") simp
  obtain r2 where i2: "Intn ?n r1 = (d2, r2)" using assms(5) i1 by (cases "Intn ?n r1") simp
  have d1: "d1 < ?n" using Intn_less[OF assms(1), of r] i1 by simp
  have d2: "d2 < ?n" using Intn_less[OF assms(1), of r1] i2 by simp
  have se: "s \<le> e" and en: "e < ?n" using assms(6,7) d1 d2 by simp_all
  have swap: "(if d1 > d2 then (d2, d1) else (d1, d2)) = (s, e)"
    using assms(6,7) by (simp add: min_def max_def)
  from assms(2,3) have l1: "length parent1 = ?n" and l2: "length parent2 = ?n"
    by (simp_all add: is_permutation_def)
  obtain c1 used where cs:
    "ox_copySegment parent1 s e (replicate ?n 0, \<lambda>_. False) = (c1, used)"
    by (cases "ox_copySegment parent1 s e (replicate ?n 0, \<lambda>_. False)")
  obtain c2 ci2 where fl: "ox_fill ?n parent2 e used (c1, (e + 1) mod ?n) = (c2, ci2)"
    by (cases "ox_fill ?n parent2 e used (c1, (e + 1) mod ?n)")
  have oc: "orderCrossover ga parent1 parent2 r = (c2, r2)"
    by (simp only: orderCrossover_def Let_def i1 i2 swap cs fl prod.case)
  then have child: "child = c2" using assms(8) by simp
  from ox_copySegment_result[OF cs] en
  have lc1: "length c1 = ?n"
    and seg1: "\<forall>i < ?n. c1 ! i = (if s \<le> i \<and> i \<le> e then parent1 ! i else 0)"
    and used: "\<forall>v. used v \<longleftrightarrow> v \<in> ?S"
    by simp_all
  let ?u = "filter (\<lambda>i. \<not> used (?src i)) [0 ..< ?n]"
  have cnt: "length ?u = ?n - (e - s + 1)"
    by (rule ox_unused_count[OF assms(2,3) se en used])
  then have cle: "length ?u \<le> ?n" by simp
  have ci: "(e + 1) mod ?n < ?n" using assms(1) by simp
  note fill = ox_fill_fold[OF fl[unfolded ox_fill_def] ci lc1 cle]
  have lc2: "length c2 = ?n" using fill by simp
  have pos: "\<And>k. ((e + 1) mod ?n + k) mod ?n = (e + 1 + k) mod ?n"
    by (simp add: mod_add_left_eq)
  have filled: "\<forall>k < length ?u. c2 ! ((e + 1 + k) mod ?n) = ?src (?u ! k)"
    using fill[THEN conjunct2, THEN conjunct2, THEN conjunct1] unfolding pos .
  have kept: "\<forall>p < ?n. (\<forall>k < length ?u. p \<noteq> (e + 1 + k) mod ?n) \<longrightarrow> c2 ! p = c1 ! p"
    using fill[THEN conjunct2, THEN conjunct2, THEN conjunct2] unfolding pos .
  have segment: "\<forall>i. s \<le> i \<and> i \<le> e \<longrightarrow> c2 ! i = parent1 ! i"
  proof (intro allI impI)
    fix i assume i: "s \<le> i \<and> i \<le> e"
    then have iln: "i < ?n" using en by simp
    have "\<forall>k < length ?u. i \<noteq> (e + 1 + k) mod ?n"
      unfolding cnt using ox_fill_position[of s i e ?n] i en by blast
    with kept iln have "c2 ! i = c1 ! i" by blast
    with seg1 iln i show "c2 ! i = parent1 ! i" by simp
  qed
  have vals: "map ?src ?u = filter (\<lambda>v. v \<notin> ?S) (rotate (e + 1) parent2)"
  proof -
    have ueq: "(\<lambda>v. \<not> used v) = (\<lambda>v. v \<notin> ?S)" using used by auto
    have "map ?src ?u = filter (\<lambda>v. \<not> used v) (map ?src [0 ..< ?n])"
      by (simp add: filter_map comp_def)
    also have "\<dots> = filter (\<lambda>v. \<not> used v) (rotate (e + 1) parent2)"
      by (simp only: ox_source_rotate[OF l2 assms(1)])
    also have "\<dots> = filter (\<lambda>v. v \<notin> ?S) (rotate (e + 1) parent2)"
      by (simp only: ueq)
    finally show ?thesis .
  qed
  have order: "\<forall>k < ?n - (e - s + 1).
        c2 ! ((e + 1 + k) mod ?n) = filter (\<lambda>v. v \<notin> ?S) (rotate (e + 1) parent2) ! k"
  proof (intro allI impI)
    fix k assume "k < ?n - (e - s + 1)"
    then have k: "k < length ?u" by (simp add: cnt)
    with filled have "c2 ! ((e + 1 + k) mod ?n) = ?src (?u ! k)" by blast
    also have "\<dots> = map ?src ?u ! k" using k by simp
    finally show "c2 ! ((e + 1 + k) mod ?n) = filter (\<lambda>v. v \<notin> ?S) (rotate (e + 1) parent2) ! k"
      by (simp only: vals)
  qed
  have cover: "{0..<int ?n} \<subseteq> set c2"
  proof
    fix v assume v: "v \<in> {0..<int ?n}"
    show "v \<in> set c2"
    proof (cases "v \<in> ?S")
      case True
      then obtain i where i: "s \<le> i" "i \<le> e" "v = parent1 ! i" by auto
      with segment have "c2 ! i = v" by simp
      moreover have "i < length c2" using i en lc2 by simp
      ultimately show ?thesis by (metis nth_mem)
    next
      case False
      from v have "v \<in> set parent2" by (simp add: is_permutation_set[OF assms(3)])
      then have "v \<in> set (rotate (e + 1) parent2)" by simp
      with False have "v \<in> set (map ?src ?u)" unfolding vals by simp
      then obtain k where "k < length (map ?src ?u)" "map ?src ?u ! k = v"
        unfolding in_set_conv_nth by blast
      then have k: "k < length ?u" "?src (?u ! k) = v" by simp_all
      with filled have "c2 ! ((e + 1 + k) mod ?n) = v" by simp
      moreover have "(e + 1 + k) mod ?n < length c2" using lc2 assms(1) by simp
      ultimately show ?thesis by (metis nth_mem)
    qed
  qed
  from permutation_by_cover[OF lc2 cover] lc2 segment order show ?thesis
    unfolding child by blast
qed

theorem orderCrossover_yields_permutation_witness:
  "fst (orderCrossover (NewGeneticSolver 5) [1, 3, 0, 2, 4] [4, 0, 1, 2, 3] (stream_of [3, 1]))
     = [1, 3, 0, 2, 4]
   \<and> is_permutation 5 (fst (orderCrossover (NewGeneticSolver 5) [1, 3, 0, 2, 4] [4, 0, 1, 2, 3]
        (stream_of [3, 1])))"
proof -
  let ?ga = "NewGeneticSolver 5"
  have n: "ga_n ?ga = 5" by (simp add: NewGeneticSolver_def)
  have h1: "0 < ga_n ?ga" unfolding n by simp
  have h2: "is_permutation (ga_n ?ga) [1, 3, 0, 2, 4]"
    and h3: "is_permutation (ga_n ?ga) [4, 0, 1, 2, 3]"
    unfolding n by (simp_all add: is_permutation_def)
  have h4: "3 = fst (Intn (ga_n ?ga) (stream_of [3, 1]))"
    and h5: "1 = fst (Intn (ga_n ?ga) (snd (Intn (ga_n ?ga) (stream_of [3, 1]))))"
    unfolding n by (simp_all add: Intn_def)
  have h6: "(1::nat) = min 3 1" and h7: "(3::nat) = max 3 1" by simp_all
  have ev: "fst (orderCrossover ?ga [1, 3, 0, 2, 4] [4, 0, 1, 2, 3] (stream_of [3, 1]))
      = [1, 3, 0, 2, 4]"
    by (simp add: orderCrossover_def ox_copySegment_def ox_fill_def n
        Intn_def Let_def upt_conv_Cons list_update_Cons_numeral replicate_numeral)
  from orderCrossover_yields_permutation[OF h1 h2 h3 h4 h5 h6 h7 refl] ev
  show ?thesis by (simp add: n)
qed

section \<open>Boards stay in range; what a simulated-annealing run returns\<close>

lemma board_ok_replicate: "board_ok n (replicate n 0)"
  by (cases n) (simp_all add: board_ok_def list_all_iff)

lemma board_ok_set: "board_ok n b \<Longrightarrow> i < n \<Longrightarrow> 0 \<le> b ! i \<and> b ! i < int n"
  by (simp add: board_ok_def list_all_length)

lemma board_ok_update_int:
  "board_ok n b \<Longrightarrow> 0 \<le> v \<Longrightarrow> v < int n \<Longrightarrow> board_ok n (b[i := v])"
  by (auto simp: board_ok_def list_all_iff dest!: set_update_subset_insert[THEN subsetD])

lemma board_ok_length: "board_ok n b \<Longrightarrow> length b = n"
  by (simp add: board_ok_def)

lemma Perm_fold_ok:
  assumes "fold (\<lambda>i (m, r). let (j, r) = Intn (i + 1) r in (m[i := m ! j, j := int i], r))
       xs (m, r) = (m', r')"
    and "\<forall>i \<in> set xs. i < n" and "board_ok n m"
  shows "board_ok n m'"
  using assms
proof (induction xs arbitrary: m r)
  case Nil
  then show ?case by simp
next
  case (Cons x xs)
  obtain j r1 where d: "Intn (x + 1) r = (j, r1)" by (cases "Intn (x + 1) r")
  from Cons.prems(2) have x: "x < n" by simp
  have "j < x + 1" using Intn_less[of "x + 1" r] d by simp
  with x have j: "j < n" by simp
  have ok1: "board_ok n (m[x := m ! j, j := int x])"
    using Cons.prems(3) board_ok_set[OF Cons.prems(3) j] x
    by (intro board_ok_update_int) simp_all
  from Cons.prems(1) d
  have rest: "fold (\<lambda>i (m, r). let (j, r) = Intn (i + 1) r in (m[i := m ! j, j := int i], r))
       xs (m[x := m ! j, j := int x], r1) = (m', r')"
    by simp
  from Cons.prems(2) have "\<forall>i \<in> set xs. i < n" by simp
  from Cons.IH[OF rest this ok1] show ?case .
qed

lemma Perm_board_ok: "board_ok n (fst (Perm n r))"
proof -
  obtain m r' where p: "Perm n r = (m, r')" by (cases "Perm n r")
  have "board_ok n m"
    by (rule Perm_fold_ok[OF p[unfolded Perm_def] _ board_ok_replicate]) simp
  with p show ?thesis by simp
qed

lemma calculateCostForBoard_cong:
  "sa_n sa' = sa_n sa \<Longrightarrow> calculateCostForBoard sa' b = calculateCostForBoard sa b"
  by (simp add: calculateCostForBoard_full)

lemma smartInit_board_ok:
  assumes "smartInit sa r = (sa', r')" and "length (sa_board sa) = sa_n sa"
  shows "board_ok (sa_n sa') (sa_board sa') \<and> sa_n sa' = sa_n sa"
proof -
  obtain p r1 where p: "Perm (sa_n sa) r = (p, r1)" by (cases "Perm (sa_n sa) r")
  have ok: "board_ok (sa_n sa) p" using Perm_board_ok[of "sa_n sa" r] p by simp
  then have "copy_go (sa_board sa) p = p" using assms(2) by (simp add: board_ok_def)
  with assms(1) p ok show ?thesis by (auto simp: smartInit_def)
qed

lemma sa_redrawPos2_less:
  assumes "sa_redrawPos2 n pos1 pos2 r = Some y"
  shows "0 < n \<longrightarrow> pos2 < n \<longrightarrow> fst y < n"
proof (rule sa_redrawPos2.raw_induct[where P = "\<lambda>n pos1 pos2 r y. 0 < n \<longrightarrow> pos2 < n \<longrightarrow> fst y < n",
      OF _ assms], goal_cases)
  case (1 f n pos1 pos2 r y)
  show ?case
  proof (cases "pos1 = pos2")
    case True
    obtain q r1 where d: "Intn n r = (q, r1)" by (cases "Intn n r")
    from 1(2) True d have "f n pos1 q r1 = Some y" by simp
    from 1(1)[OF this] Intn_less[of n r] d show ?thesis by simp
  next
    case False
    with 1(2) show ?thesis by auto
  qed
qed

text \<open>A stream on which the redraw loop never ends: every draw gives \<open>pos1\<close> again.\<close>

lemma sa_redrawPos2_diverges:
  assumes "sa_redrawPos2 n pos1 pos2 r = Some y"
  shows "\<not> (pos1 = pos2 \<and> (\<forall>k. r k mod n = pos1))"
proof (rule sa_redrawPos2.raw_induct[where P = "\<lambda>n pos1 pos2 r y. \<not> (pos1 = pos2 \<and> (\<forall>k. r k mod n = pos1))",
      OF _ assms], goal_cases)
  case (1 f n pos1 pos2 r y)
  show ?case
  proof
    assume a: "pos1 = pos2 \<and> (\<forall>k. r k mod n = pos1)"
    have d: "Intn n r = (pos1, rng_tail r)" using a by (simp add: Intn_def)
    from 1(2) a d have "f n pos1 pos1 (rng_tail r) = Some y" by simp
    from 1(1)[OF this] a show False by (simp add: rng_tail_def)
  qed
qed

lemma sa_scanRows_range:
  assumes "sa_scanRows sa nb col (b0, m0) = (bestRow, m)" and "length nb = sa_n sa"
    and "0 \<le> b0" and "b0 < int (sa_n sa)"
  shows "0 \<le> bestRow \<and> bestRow < int (sa_n sa)"
proof (cases "m < m0")
  case True
  with sa_scanRows_result[OF assms(1,2)] obtain row where "row < sa_n sa" "bestRow = int row"
    by auto
  then show ?thesis by simp
next
  case False
  with sa_scanRows_result[OF assms(1,2)] have "bestRow = b0" by simp
  with assms(3,4) show ?thesis by simp
qed

lemma generateSmartNeighbor_board_ok:
  assumes gen: "generateSmartNeighbor sa r = Some (nb, r')"
    and ok: "board_ok (sa_n sa) (sa_board sa)" and pos: "0 < sa_n sa"
  shows "board_ok (sa_n sa) nb"
proof -
  let ?n = "sa_n sa"
  let ?b = "sa_board sa"
  have len: "length ?b = ?n" using ok by (simp add: board_ok_def)
  have cp: "copy_go (replicate ?n 0) ?b = ?b" using len by simp
  obtain s r1 where f: "Float64 r = (s, r1)" by (cases "Float64 r")
  consider (swap) "s < f64_0_6" | (move) "\<not> s < f64_0_6" "s < f64_0_8" | (local) "\<not> s < f64_0_6" "\<not> s < f64_0_8"
    by blast
  then show ?thesis
  proof cases
    case swap
    obtain p1 r2 where i1: "Intn ?n r1 = (p1, r2)" by (cases "Intn ?n r1")
    obtain p2 r3 where i2: "Intn ?n r2 = (p2, r3)" by (cases "Intn ?n r2")
    have p1: "p1 < ?n" using Intn_less[OF pos, of r1] i1 by simp
    have p2: "p2 < ?n" using Intn_less[OF pos, of r2] i2 by simp
    from gen swap f i1 i2 cp obtain q r4 where
      rd: "sa_redrawPos2 ?n p1 p2 r3 = Some (q, r4)" and nb: "nb = ?b[p1 := ?b ! q, q := ?b ! p1]"
      by (auto simp: generateSmartNeighbor_def Let_def split: option.splits)
    have q: "q < ?n" using sa_redrawPos2_less[OF rd] pos p2 by simp
    show ?thesis unfolding nb
      using board_ok_set[OF ok q] board_ok_set[OF ok p1] ok
      by (intro board_ok_update_int) simp_all
  next
    case move
    show ?thesis
    proof (cases "length (findConflictedQueens sa) > 0")
      case False
      with gen move f cp have "nb = ?b" by (simp add: generateSmartNeighbor_def Let_def)
      with ok show ?thesis by simp
    next
      case True
      let ?cq = "findConflictedQueens sa"
      obtain k r2 where i1: "Intn (length ?cq) r1 = (k, r2)" by (cases "Intn (length ?cq) r1")
      obtain b0 r3 where i2: "Intn ?n r2 = (b0, r3)" by (cases "Intn ?n r2")
      obtain bestRow m where sc:
        "sa_scanRows sa ?b (?cq ! k) (int b0, int (?n * ?n)) = (bestRow, m)"
        by (cases "sa_scanRows sa ?b (?cq ! k) (int b0, int (?n * ?n))")
      have b0: "b0 < ?n" using Intn_less[OF pos, of r2] i2 by simp
      from gen move f True i1 i2 sc cp have nb: "nb = ?b[?cq ! k := bestRow]"
        by (simp add: generateSmartNeighbor_def Let_def)
      from sa_scanRows_range[OF sc len] b0 have "0 \<le> bestRow \<and> bestRow < int ?n" by simp
      with ok show ?thesis unfolding nb by (intro board_ok_update_int) simp_all
    qed
  next
    case local
    obtain col r2 where i1: "Intn ?n r1 = (col, r2)" by (cases "Intn ?n r1")
    have col: "col < ?n" using Intn_less[OF pos, of r1] i1 by simp
    obtain bestRow m where sc:
      "sa_scanRows sa ?b col (?b ! col, calculateConflictsForPosition sa ?b col) = (bestRow, m)"
      by (cases "sa_scanRows sa ?b col (?b ! col, calculateConflictsForPosition sa ?b col)")
    from gen local f i1 sc cp have nb: "nb = ?b[col := bestRow]"
      by (simp add: generateSmartNeighbor_def Let_def)
    from sa_scanRows_range[OF sc len] board_ok_set[OF ok col]
    have "0 \<le> bestRow \<and> bestRow < int ?n" by simp
    with ok show ?thesis unfolding nb by (intro board_ok_update_int) simp_all
  qed
qed

lemma sa_accept_inv:
  assumes "sa_accept fp sa nb (calculateCostForBoard sa nb) cc bc bb t r = (sa', cc', bc', bb', r')"
    and "sa_inv sa cc bc bb" and "board_ok (sa_n sa) nb"
  shows "sa_inv sa' cc' bc' bb'"
proof -
  from assms(2,3) have l: "length nb = length (sa_board sa)" "length nb = length bb"
    by (simp_all add: sa_inv_def board_ok_def)
  then have c: "copy_go (sa_board sa) nb = nb" "copy_go bb nb = nb" by simp_all
  from assms show ?thesis
    unfolding sa_accept_def Let_def sa_inv_def
    by (auto simp: c calculateCostForBoard_full split: if_splits prod.splits)
qed

lemma sa_cool_inv:
  assumes "sa_cool fp sa iter cc bc bb t = (sa', cc', t')" and "sa_inv sa cc bc bb"
  shows "sa_inv sa' cc' bc bb"
proof -
  from assms(2) have "length bb = length (sa_board sa)" by (simp add: sa_inv_def board_ok_def)
  then have c: "copy_go (sa_board sa) bb = bb" by simp
  from assms show ?thesis
    unfolding sa_cool_def sa_inv_def
    by (auto simp: c calculateCostForBoard_full split: if_splits)
qed

text \<open>What a run of the simulated-annealing loop returns.\<close>

lemma sa_loop_result:
  assumes "sa_loop fp sa iter t cc bc bb r = Some (found, sa', r')"
    and "sa_inv sa cc bc bb" and "0 < sa_n sa"
  shows "length (sa_board sa') = sa_n sa
     \<and> (if found
         then sa_solved sa' \<and> board_ok (sa_n sa) (sa_solution sa')
              \<and> calculateCostForBoard sa (sa_solution sa') = 0
         else sa_solved sa' = sa_solved sa \<and> sa_solution sa' = sa_solution sa)"
  using assms
proof (induction sa iter t cc bc bb r rule: sa_loop_induct[where fp = fp])
  case (step sa iter t cc bc bb r)
  from step.prems(2) have okb: "board_ok (sa_n sa) (sa_board sa)"
    and okbb: "board_ok (sa_n sa) bb"
    and cc: "cc = calculateCostForBoard sa (sa_board sa)"
    and bc: "bc = calculateCostForBoard sa bb"
    by (simp_all add: sa_inv_def)
  have cpb: "copy_go (replicate (sa_n sa) 0) (sa_board sa) = sa_board sa"
    and cpbb: "copy_go (replicate (sa_n sa) 0) bb = bb"
    using okb okbb by (simp_all add: board_ok_def)
  consider (exit) "\<not> (iter < sa_maxIterations sa \<and> t > sa_minTemp sa)"
    | (found) "iter < sa_maxIterations sa" "t > sa_minTemp sa" "cc = 0"
    | (continue) "iter < sa_maxIterations sa" "t > sa_minTemp sa" "cc \<noteq> 0"
    by blast
  then show ?case
  proof cases
    case exit
    from step.prems(1) show ?thesis
      unfolding sa_loop_exit[OF exit] using okbb okb bc cpbb
      by (auto simp: board_ok_def split: if_splits)
  next
    case found
    from step.prems(1) show ?thesis
      unfolding sa_loop_found[OF found] using okb cc cpb found(3)
      by (auto simp: board_ok_def)
  next
    case continue
    show ?thesis
    proof (cases "generateSmartNeighbor sa r")
      case None
      from step.prems(1) show ?thesis unfolding sa_loop_stuck[OF continue None] by simp
    next
      case (Some p)
      obtain nb r0 where gen: "generateSmartNeighbor sa r = Some (nb, r0)"
        using Some by (cases p) simp
      obtain sa1 cc1 bc1 bb1 r1 where
        acc: "sa_accept fp sa nb (calculateCostForBoard sa nb) cc bc bb t r0 = (sa1, cc1, bc1, bb1, r1)"
        by (cases "sa_accept fp sa nb (calculateCostForBoard sa nb) cc bc bb t r0")
      obtain sa2 cc2 t2 where cool: "sa_cool fp sa1 iter cc1 bc1 bb1 t = (sa2, cc2, t2)"
        by (cases "sa_cool fp sa1 iter cc1 bc1 bb1 t")
      from step.prems(1)
      have rec: "sa_loop fp sa2 (iter + 1) t2 cc2 bc1 bb1 r1 = Some (found, sa', r')"
        unfolding sa_loop_continue[OF continue gen acc cool] .
      have oknb: "board_ok (sa_n sa) nb"
        by (rule generateSmartNeighbor_board_ok[OF gen okb step.prems(3)])
      have inv1: "sa_inv sa1 cc1 bc1 bb1" by (rule sa_accept_inv[OF acc step.prems(2) oknb])
      have inv2: "sa_inv sa2 cc2 bc1 bb1" by (rule sa_cool_inv[OF cool inv1])
      have par: "sa_same_params sa sa2"
        using sa_accept_params[OF acc] sa_cool_params[OF cool]
        by (blast intro: sa_same_params_trans)
      then have n2: "sa_n sa2 = sa_n sa" by (simp add: sa_same_params_def)
      have same: "sa_solved sa2 = sa_solved sa \<and> sa_solution sa2 = sa_solution sa"
        using acc cool
        by (auto simp: sa_accept_def sa_cool_def Let_def split: if_splits prod.splits)
      have pos2: "0 < sa_n sa2" using n2 step.prems(3) by simp
      have cost2: "\<And>b. calculateCostForBoard sa2 b = calculateCostForBoard sa b"
        using n2 by (rule calculateCostForBoard_cong)
      from step.IH[OF continue gen acc cool rec inv2 pos2] same
      show ?thesis unfolding cost2 n2 by (cases found) simp_all
    qed
  qed
qed

lemma sa_singleRun_result:
  assumes "sa_singleRun fp sa r = Some (found, sa', r')"
    and "length (sa_board sa) = sa_n sa" and "0 < sa_n sa"
  shows "length (sa_board sa') = sa_n sa
     \<and> (if found
         then sa_solved sa' \<and> board_ok (sa_n sa) (sa_solution sa')
              \<and> calculateCostForBoard sa (sa_solution sa') = 0
         else sa_solved sa' = sa_solved sa \<and> sa_solution sa' = sa_solution sa)"
proof -
  obtain sa0 r0 where i: "smartInit sa r = (sa0, r0)" by (cases "smartInit sa r")
  from smartInit_board_ok[OF i assms(2)]
  have ok0: "board_ok (sa_n sa0) (sa_board sa0)" and n0: "sa_n sa0 = sa_n sa" by blast+
  have cp: "copy_go (replicate (sa_n sa0) 0) (sa_board sa0) = sa_board sa0"
    using ok0 by (simp add: board_ok_def)
  from assms(1) i
  have run: "sa_loop fp sa0 0 (sa_initialTemp sa0) (calculateCost sa0) (calculateCost sa0)
       (sa_board sa0) r0 = Some (found, sa', r')"
    by (simp add: sa_singleRun_def Let_def cp)
  have inv: "sa_inv sa0 (calculateCost sa0) (calculateCost sa0) (sa_board sa0)"
    using ok0 by (simp add: sa_inv_def calculateCost_def)
  have same: "sa_solved sa0 = sa_solved sa \<and> sa_solution sa0 = sa_solution sa"
    using i by (auto simp: smartInit_def split: prod.splits)
  have cost0: "\<And>b. calculateCostForBoard sa0 b = calculateCostForBoard sa b"
    using n0 by (rule calculateCostForBoard_cong)
  from sa_loop_result[OF run inv] assms(3) n0 same show ?thesis
    unfolding cost0 by (cases found) simp_all
qed

lemma sa_restartLoop_result:
  assumes "sa_restartLoop fp sa restart r = Some (found, sa', r')"
    and "length (sa_board sa) = sa_n sa" and "0 < sa_n sa"
  shows "if found
         then sa_solved sa' \<and> board_ok (sa_n sa) (sa_solution sa')
              \<and> calculateCostForBoard sa (sa_solution sa') = 0
         else sa_solved sa' = sa_solved sa \<and> sa_solution sa' = sa_solution sa"
  using assms
proof (induction fp sa restart r rule: sa_restartLoop.induct)
  case (1 fp sa restart r)
  show ?case
  proof (cases "restart < sa_restarts sa")
    case False
    with "1.prems"(1) show ?thesis by (subst (asm) sa_restartLoop.simps) auto
  next
    case lt: True
    from "1.prems"(1) lt obtain f1 sa1 r1 where
      run: "sa_singleRun fp sa r = Some (f1, sa1, r1)"
      by (subst (asm) sa_restartLoop.simps) (auto split: option.splits)
    note res = sa_singleRun_result[OF run "1.prems"(2,3)]
    have n1: "sa_n sa1 = sa_n sa"
      using sa_singleRun_params[OF run] by (simp add: sa_same_params_def)
    show ?thesis
    proof (cases f1)
      case True
      with "1.prems"(1) lt run have "found" "sa' = sa1"
        by (subst (asm) sa_restartLoop.simps, simp)+
      with res True show ?thesis by simp
    next
      case False
      with "1.prems"(1) lt run
      have rec: "sa_restartLoop fp sa1 (restart + 1) r1 = Some (found, sa', r')"
        by (subst (asm) sa_restartLoop.simps) simp
      have l1: "length (sa_board sa1) = sa_n sa1" using res n1 by simp
      have p1: "0 < sa_n sa1" using n1 "1.prems"(3) by simp
      have cost1: "\<And>b. calculateCostForBoard sa1 b = calculateCostForBoard sa b"
        using n1 by (rule calculateCostForBoard_cong)
      from "1.IH"[OF lt run refl refl False rec l1 p1] res False
      show ?thesis unfolding cost1 n1 by (cases found) simp_all
    qed
  qed
qed

text \<open>No board of two or three columns with rows in range is free of conflicts.\<close>

lemma no_solution_2_3:
  assumes "N = 2 \<or> N = 3" and "board_ok N b"
  shows "full_count N b \<noteq> 0"
proof
  assume "full_count N b = 0"
  then have v: "valid_solution N b" by (simp add: full_count_zero_iff)
  from assms(2) have r: "\<And>i. i < N \<Longrightarrow> 0 \<le> b ! i \<and> b ! i < int N"
    by (rule board_ok_set)
  from assms(1) show False
  proof
    assume n: "N = 2"
    from v have "b ! 0 \<noteq> b ! 1 \<and> \<bar>b ! 0 - b ! 1\<bar> \<noteq> \<bar>int 0 - int 1\<bar>"
      unfolding valid_solution_def n by (metis One_nat_def lessI less_2_cases_iff zero_neq_one)
    with r[of 0] r[of 1] n show False by (auto simp: abs_if split: if_splits)
  next
    assume n: "N = 3"
    have p01: "b ! 0 \<noteq> b ! 1 \<and> \<bar>b ! 0 - b ! 1\<bar> \<noteq> \<bar>int 0 - int 1\<bar>"
      using v[unfolded valid_solution_def, rule_format, of 0 1] n by simp
    have p12: "b ! 1 \<noteq> b ! 2 \<and> \<bar>b ! 1 - b ! 2\<bar> \<noteq> \<bar>int 1 - int 2\<bar>"
      using v[unfolded valid_solution_def, rule_format, of 1 2] n by simp
    have p02: "b ! 0 \<noteq> b ! 2 \<and> \<bar>b ! 0 - b ! 2\<bar> \<noteq> \<bar>int 0 - int 2\<bar>"
      using v[unfolded valid_solution_def, rule_format, of 0 2] n by simp
    from p01 p12 p02 r[of 0] r[of 1] r[of 2] n show False
      by (auto simp: abs_if split: if_splits)
  qed
qed

section \<open>When the simulated-annealing solver returns\<close>

lemma rng_later_refl [simp]: "rng_later r r"
  unfolding rng_later_def by (rule exI[of _ 0]) simp

lemma rng_later_trans: "rng_later a b \<Longrightarrow> rng_later b c \<Longrightarrow> rng_later a c"
proof -
  assume "rng_later a b" "rng_later b c"
  then obtain j k where "b = rng_drop j a" "c = rng_drop k b" unfolding rng_later_def by blast
  then have "c = rng_drop (k + j) a" by (simp add: rng_drop_def add.assoc)
  then show ?thesis unfolding rng_later_def by blast
qed

lemma rng_later_tail [simp]: "rng_later r (rng_tail r)"
  unfolding rng_later_def by (rule exI[of _ 1]) (simp add: rng_drop_def rng_tail_def)

lemma fair_stream_later: "fair_stream n r \<Longrightarrow> rng_later r r' \<Longrightarrow> fair_stream n r'"
proof -
  assume f: "fair_stream n r" and "rng_later r r'"
  then obtain d where d: "r' = rng_drop d r" unfolding rng_later_def by blast
  show ?thesis unfolding fair_stream_def
  proof (intro allI)
    fix k v
    from f obtain j where j: "k + d \<le> j" "r j mod n \<noteq> v" unfolding fair_stream_def by blast
    then have "k \<le> j - d \<and> r' (j - d) mod n \<noteq> v" by (simp add: d rng_drop_def)
    then show "\<exists>j. k \<le> j \<and> r' j mod n \<noteq> v" by blast
  qed
qed

lemma Intn_later: "Intn n r = (v, r') \<Longrightarrow> rng_later r r'"
  by (auto simp: Intn_def)

lemma Float64_later: "Float64 r = (v, r') \<Longrightarrow> rng_later r r'"
  by (auto simp: Float64_def)

lemma Perm_fold_later:
  "fold (\<lambda>i (m, r). let (j, r) = Intn (i + 1) r in (m[i := m ! j, j := int i], r))
       xs (m, r) = (m', r') \<Longrightarrow> rng_later r r'"
proof (induction xs arbitrary: m r)
  case Nil
  then show ?case by simp
next
  case (Cons x xs)
  obtain j r1 where d: "Intn (x + 1) r = (j, r1)" by (cases "Intn (x + 1) r")
  from Cons.prems d
  have "fold (\<lambda>i (m, r). let (j, r) = Intn (i + 1) r in (m[i := m ! j, j := int i], r))
       xs (m[x := m ! j, j := int x], r1) = (m', r')"
    by simp
  from Cons.IH[OF this] Intn_later[OF d] show ?case by (blast intro: rng_later_trans)
qed

lemma Perm_later: "Perm n r = (m, r') \<Longrightarrow> rng_later r r'"
  unfolding Perm_def by (rule Perm_fold_later)

lemma smartInit_later: "smartInit sa r = (sa', r') \<Longrightarrow> rng_later r r'"
  by (auto simp: smartInit_def split: prod.splits dest: Perm_later)

lemma sa_redrawPos2_same_terminates:
  "r j mod n \<noteq> pos1 \<Longrightarrow> \<exists>p r'. sa_redrawPos2 n pos1 pos1 r = Some (p, r') \<and> rng_later r r'"
proof (induction j arbitrary: r)
  case 0
  then have "sa_redrawPos2 n pos1 pos1 r = Some (r 0 mod n, rng_tail r)"
    by (subst sa_redrawPos2.simps, simp add: Intn_def, subst sa_redrawPos2.simps, simp)
  then show ?case by simp
next
  case (Suc j)
  show ?case
  proof (cases "r 0 mod n = pos1")
    case False
    then have "sa_redrawPos2 n pos1 pos1 r = Some (r 0 mod n, rng_tail r)"
      by (subst sa_redrawPos2.simps, simp add: Intn_def, subst sa_redrawPos2.simps, simp)
    then show ?thesis by simp
  next
    case True
    then have e: "sa_redrawPos2 n pos1 pos1 r = sa_redrawPos2 n pos1 pos1 (rng_tail r)"
      by (subst sa_redrawPos2.simps) (simp add: Intn_def)
    from Suc.prems have "rng_tail r j mod n \<noteq> pos1" by (simp add: rng_tail_def)
    from Suc.IH[of "rng_tail r", OF this] obtain p r' where
      "sa_redrawPos2 n pos1 pos1 (rng_tail r) = Some (p, r')" "rng_later (rng_tail r) r'"
      by blast
    with e show ?thesis by (auto intro: rng_later_trans[OF rng_later_tail])
  qed
qed

lemma sa_redrawPos2_terminates:
  assumes "fair_stream n r"
  shows "\<exists>p r'. sa_redrawPos2 n pos1 pos2 r = Some (p, r') \<and> rng_later r r'"
proof (cases "pos1 = pos2")
  case False
  then have "sa_redrawPos2 n pos1 pos2 r = Some (pos2, r)"
    by (subst sa_redrawPos2.simps) simp
  then show ?thesis by simp
next
  case True
  from assms obtain j where "r j mod n \<noteq> pos1" unfolding fair_stream_def by blast
  from sa_redrawPos2_same_terminates[of r j n pos1, OF this] True show ?thesis by simp
qed

lemma generateSmartNeighbor_terminates:
  assumes "fair_stream (sa_n sa) r"
  shows "\<exists>nb r'. generateSmartNeighbor sa r = Some (nb, r') \<and> rng_later r r'"
proof -
  let ?n = "sa_n sa"
  obtain s r1 where f: "Float64 r = (s, r1)" by (cases "Float64 r")
  note l1 = Float64_later[OF f]
  consider (swap) "s < f64_0_6" | (move) "\<not> s < f64_0_6" "s < f64_0_8" | (local) "\<not> s < f64_0_6" "\<not> s < f64_0_8"
    by blast
  then show ?thesis
  proof cases
    case swap
    obtain p1 r2 where i1: "Intn ?n r1 = (p1, r2)" by (cases "Intn ?n r1")
    obtain p2 r3 where i2: "Intn ?n r2 = (p2, r3)" by (cases "Intn ?n r2")
    have l3: "rng_later r r3"
      using l1 Intn_later[OF i1] Intn_later[OF i2] by (blast intro: rng_later_trans)
    from sa_redrawPos2_terminates[OF fair_stream_later[OF assms l3], of p1 p2]
    obtain q r4 where rd: "sa_redrawPos2 ?n p1 p2 r3 = Some (q, r4)" and l4: "rng_later r3 r4"
      by blast
    have "\<exists>nb. generateSmartNeighbor sa r = Some (nb, r4)"
      using swap f i1 i2 rd by (simp add: generateSmartNeighbor_def Let_def)
    with l3 l4 show ?thesis by (blast intro: rng_later_trans)
  next
    case move
    show ?thesis
    proof (cases "length (findConflictedQueens sa) > 0")
      case False
      with move f have "\<exists>nb. generateSmartNeighbor sa r = Some (nb, r1)"
        by (simp add: generateSmartNeighbor_def Let_def)
      with l1 show ?thesis by blast
    next
      case True
      let ?cq = "findConflictedQueens sa"
      obtain k r2 where i1: "Intn (length ?cq) r1 = (k, r2)" by (cases "Intn (length ?cq) r1")
      obtain b0 r3 where i2: "Intn ?n r2 = (b0, r3)" by (cases "Intn ?n r2")
      have l3: "rng_later r r3"
        using l1 Intn_later[OF i1] Intn_later[OF i2] by (blast intro: rng_later_trans)
      have "\<exists>nb. generateSmartNeighbor sa r = Some (nb, r3)"
        using move f True i1 i2
        by (simp add: generateSmartNeighbor_def Let_def split: prod.splits)
      with l3 show ?thesis by blast
    qed
  next
    case local
    obtain col r2 where i1: "Intn ?n r1 = (col, r2)" by (cases "Intn ?n r1")
    have l2: "rng_later r r2" using l1 Intn_later[OF i1] by (blast intro: rng_later_trans)
    have "\<exists>nb. generateSmartNeighbor sa r = Some (nb, r2)"
      using local f i1 by (simp add: generateSmartNeighbor_def Let_def split: prod.splits)
    with l2 show ?thesis by blast
  qed
qed

lemma sa_accept_later:
  "sa_accept fp sa nb nc cc bc bb t r = (sa', cc', bc', bb', r') \<Longrightarrow> rng_later r r'"
  by (auto simp: sa_accept_def Let_def split: if_splits prod.splits dest: Float64_later)

lemma sa_loop_terminates:
  assumes "fair_stream (sa_n sa) r"
  shows "\<exists>found sa' r'. sa_loop fp sa iter t cc bc bb r = Some (found, sa', r') \<and> rng_later r r'"
  using assms
proof (induction sa iter t cc bc bb r rule: sa_loop_induct[where fp = fp])
  case (step sa iter t cc bc bb r)
  consider (exit) "\<not> (iter < sa_maxIterations sa \<and> t > sa_minTemp sa)"
    | (found) "iter < sa_maxIterations sa" "t > sa_minTemp sa" "cc = 0"
    | (continue) "iter < sa_maxIterations sa" "t > sa_minTemp sa" "cc \<noteq> 0"
    by blast
  then show ?case
  proof cases
    case exit
    show ?thesis unfolding sa_loop_exit[OF exit] by (cases "bc = 0") auto
  next
    case found
    show ?thesis unfolding sa_loop_found[OF found] by auto
  next
    case continue
    from generateSmartNeighbor_terminates[OF step.prems] obtain nb r0 where
      gen: "generateSmartNeighbor sa r = Some (nb, r0)" and l0: "rng_later r r0" by blast
    obtain sa1 cc1 bc1 bb1 r1 where
      acc: "sa_accept fp sa nb (calculateCostForBoard sa nb) cc bc bb t r0 = (sa1, cc1, bc1, bb1, r1)"
      by (cases "sa_accept fp sa nb (calculateCostForBoard sa nb) cc bc bb t r0")
    obtain sa2 cc2 t2 where cool: "sa_cool fp sa1 iter cc1 bc1 bb1 t = (sa2, cc2, t2)"
      by (cases "sa_cool fp sa1 iter cc1 bc1 bb1 t")
    have l1: "rng_later r r1" using l0 sa_accept_later[OF acc] by (blast intro: rng_later_trans)
    have "sa_same_params sa sa2"
      using sa_accept_params[OF acc] sa_cool_params[OF cool]
      by (blast intro: sa_same_params_trans)
    then have n2: "sa_n sa2 = sa_n sa" by (simp add: sa_same_params_def)
    have fair1: "fair_stream (sa_n sa2) r1"
      unfolding n2 by (rule fair_stream_later[OF step.prems l1])
    from step.IH[OF continue gen acc cool fair1] obtain found sa' r' where
      "sa_loop fp sa2 (iter + 1) t2 cc2 bc1 bb1 r1 = Some (found, sa', r')" "rng_later r1 r'"
      by blast
    with l1 show ?thesis
      unfolding sa_loop_continue[OF continue gen acc cool] by (blast intro: rng_later_trans)
  qed
qed

lemma sa_singleRun_terminates:
  assumes "fair_stream (sa_n sa) r"
  shows "\<exists>found sa' r'. sa_singleRun fp sa r = Some (found, sa', r') \<and> rng_later r r'"
proof -
  obtain sa0 r0 where i: "smartInit sa r = (sa0, r0)" by (cases "smartInit sa r")
  have n0: "sa_n sa0 = sa_n sa" using smartInit_params[OF i] by (simp add: sa_same_params_def)
  have l0: "rng_later r r0" by (rule smartInit_later[OF i])
  have "fair_stream (sa_n sa0) r0" unfolding n0 by (rule fair_stream_later[OF assms l0])
  from sa_loop_terminates[OF this, of fp 0 "sa_initialTemp sa0" "calculateCost sa0" "calculateCost sa0"
      "copy_go (replicate (sa_n sa0) 0) (sa_board sa0)"]
  obtain found sa' r' where
    "sa_loop fp sa0 0 (sa_initialTemp sa0) (calculateCost sa0) (calculateCost sa0)
       (copy_go (replicate (sa_n sa0) 0) (sa_board sa0)) r0 = Some (found, sa', r')"
    "rng_later r0 r'" by blast
  with l0 i have "sa_singleRun fp sa r = Some (found, sa', r') \<and> rng_later r r'"
    unfolding sa_singleRun_def Let_def by (auto intro: rng_later_trans)
  then show ?thesis by blast
qed

lemma sa_restartLoop_terminates:
  assumes "fair_stream (sa_n sa) r"
  shows "\<exists>res. sa_restartLoop fp sa restart r = Some res"
  using assms
proof (induction fp sa restart r rule: sa_restartLoop.induct)
  case (1 fp sa restart r)
  show ?case
  proof (cases "restart < sa_restarts sa")
    case False
    then show ?thesis by (subst sa_restartLoop.simps) auto
  next
    case lt: True
    from sa_singleRun_terminates[OF "1.prems"] obtain f1 sa1 r1 where
      run: "sa_singleRun fp sa r = Some (f1, sa1, r1)" and l1: "rng_later r r1" by blast
    show ?thesis
    proof (cases f1)
      case True
      with lt run show ?thesis by (subst sa_restartLoop.simps) auto
    next
      case False
      have n1: "sa_n sa1 = sa_n sa"
        using sa_singleRun_params[OF run] by (simp add: sa_same_params_def)
      have "fair_stream (sa_n sa1) r1" unfolding n1 by (rule fair_stream_later[OF "1.prems" l1])
      from "1.IH"[OF lt run refl refl False this] lt run False show ?thesis
        by (subst sa_restartLoop.simps) simp
    qed
  qed
qed

section \<open>Invariants of the genetic solver\<close>

lemma fold_writes:
  assumes step: "\<And>i \<sigma>. P i \<Longrightarrow> I \<sigma> \<Longrightarrow>
                    I (step i \<sigma>) \<and> (\<exists>v. get (step i \<sigma>) = (get \<sigma>)[i := v] \<and> Q v)"
    and "I \<sigma>" and "\<forall>i \<in> set xs. P i"
  shows "I (fold step xs \<sigma>) \<and> length (get (fold step xs \<sigma>)) = length (get \<sigma>)
     \<and> (\<forall>j < length (get \<sigma>).
           (j \<in> set xs \<longrightarrow> Q (get (fold step xs \<sigma>) ! j))
         \<and> (j \<notin> set xs \<longrightarrow> get (fold step xs \<sigma>) ! j = get \<sigma> ! j))"
  using assms(2,3)
proof (induction xs arbitrary: \<sigma>)
  case Nil
  then show ?case by simp
next
  case (Cons x xs)
  from Cons.prems(2) have px: "P x" and pxs: "\<forall>i \<in> set xs. P i" by simp_all
  from step[OF px Cons.prems(1)] obtain v where
    i1: "I (step x \<sigma>)" and g1: "get (step x \<sigma>) = (get \<sigma>)[x := v]" and q: "Q v"
    by blast
  note IH = Cons.IH[OF i1 pxs]
  have len: "length (get (step x \<sigma>)) = length (get \<sigma>)" using g1 by simp
  have "\<forall>j < length (get \<sigma>).
           (j \<in> set (x # xs) \<longrightarrow> Q (get (fold step xs (step x \<sigma>)) ! j))
         \<and> (j \<notin> set (x # xs) \<longrightarrow> get (fold step xs (step x \<sigma>)) ! j = get \<sigma> ! j)"
  proof (intro allI impI)
    fix j assume j: "j < length (get \<sigma>)"
    with IH len have a: "j \<in> set xs \<longrightarrow> Q (get (fold step xs (step x \<sigma>)) ! j)"
      and b: "j \<notin> set xs \<longrightarrow> get (fold step xs (step x \<sigma>)) ! j = get (step x \<sigma>) ! j"
      by simp_all
    show "(j \<in> set (x # xs) \<longrightarrow> Q (get (fold step xs (step x \<sigma>)) ! j))
         \<and> (j \<notin> set (x # xs) \<longrightarrow> get (fold step xs (step x \<sigma>)) ! j = get \<sigma> ! j)"
    proof (cases "j \<in> set xs")
      case True
      with a show ?thesis by simp
    next
      case False
      with b have e: "get (fold step xs (step x \<sigma>)) ! j = (get \<sigma>)[x := v] ! j"
        by (simp add: g1)
      show ?thesis
      proof (cases "j = x")
        case True
        with e j q show ?thesis by simp
      next
        case ne: False
        with e False show ?thesis by simp
      qed
    qed
  qed
  with IH len show ?case by simp
qed

lemma ga_inv_nth:
  "ga_inv ga \<Longrightarrow> ind \<in> set (ga_population ga) \<Longrightarrow> board_ok (ga_n ga) (chromosome ind)"
  by (simp add: ga_inv_def list_all_iff)

lemma initializeIndividual_writes:
  assumes "ga_pre ga"
  shows "ga_pre (fst (initializeIndividual ga i r))
     \<and> ga_n (fst (initializeIndividual ga i r)) = ga_n ga
     \<and> (\<exists>v. ga_population (fst (initializeIndividual ga i r)) = (ga_population ga)[i := v]
            \<and> board_ok (ga_n ga) (chromosome v))"
proof -
  obtain p r1 where p: "Perm (ga_n ga) r = (p, r1)" by (cases "Perm (ga_n ga) r")
  have ok: "board_ok (ga_n ga) p" using Perm_board_ok[of "ga_n ga" r] p by simp
  then have cp: "copy_go (replicate (ga_n ga) 0) p = p" by (simp add: board_ok_def)
  have "fst (initializeIndividual ga i r)
      = ga\<lparr>ga_population := (ga_population ga)[i := \<lparr>chromosome = p, fitness = 0\<rparr>]\<rparr>"
    by (simp add: initializeIndividual_def Let_def p cp)
  moreover have "\<exists>v. (ga_population ga)[i := \<lparr>chromosome = p, fitness = 0\<rparr>] = (ga_population ga)[i := v]
            \<and> board_ok (ga_n ga) (chromosome v)"
    using ok by (intro exI[of _ "\<lparr>chromosome = p, fitness = 0\<rparr>"]) simp
  ultimately show ?thesis using assms by (simp add: ga_pre_def)
qed

lemma initializeIndividual_fold_inv:
  assumes pre: "ga_pre ga"
    and res: "fold (\<lambda>i (ga, r). initializeIndividual ga i r) xs (ga, r) = (ga', r')"
    and cover: "\<forall>j < ga_populationSize ga.
                  j \<notin> set xs \<longrightarrow> board_ok (ga_n ga) (chromosome (ga_population ga ! j))"
  shows "ga_inv ga' \<and> ga_solved ga' = ga_solved ga \<and> ga_solution ga' = ga_solution ga"
proof -
  let ?I = "\<lambda>\<sigma>. ga_pre (fst \<sigma>) \<and> ga_n (fst \<sigma>) = ga_n ga
            \<and> ga_solved (fst \<sigma>) = ga_solved ga \<and> ga_solution (fst \<sigma>) = ga_solution ga"
  let ?get = "\<lambda>\<sigma>. ga_population (fst \<sigma>)"
  let ?Q = "\<lambda>v. board_ok (ga_n ga) (chromosome v)"
  let ?step = "\<lambda>i (ga, r). initializeIndividual ga i r"
  have step: "\<And>i \<sigma>. i < Suc i \<Longrightarrow> ?I \<sigma> \<Longrightarrow>
      ?I (?step i \<sigma>) \<and> (\<exists>v. ?get (?step i \<sigma>) = (?get \<sigma>)[i := v] \<and> ?Q v)"
  proof -
    fix i and \<sigma> :: "GeneticSolver \<times> rng"
    assume a: "?I \<sigma>"
    obtain g s where s: "\<sigma> = (g, s)" by (cases \<sigma>)
    have same: "ga_solved (fst (initializeIndividual g i s)) = ga_solved g
        \<and> ga_solution (fst (initializeIndividual g i s)) = ga_solution g"
      by (simp add: initializeIndividual_def Let_def split: prod.splits)
    from initializeIndividual_writes[of g i s] a same
    show "?I (?step i \<sigma>) \<and> (\<exists>v. ?get (?step i \<sigma>) = (?get \<sigma>)[i := v] \<and> ?Q v)"
      unfolding s by auto
  qed
  have i0: "?I (ga, r)" using pre by simp
  have all: "\<forall>i \<in> set xs. i < Suc i" by simp
  have fw0: "?I (fold ?step xs (ga, r))
     \<and> length (?get (fold ?step xs (ga, r))) = length (?get (ga, r))
     \<and> (\<forall>j < length (?get (ga, r)).
           (j \<in> set xs \<longrightarrow> ?Q (?get (fold ?step xs (ga, r)) ! j))
         \<and> (j \<notin> set xs \<longrightarrow> ?get (fold ?step xs (ga, r)) ! j = ?get (ga, r) ! j))"
    by (rule fold_writes[where I = ?I and get = ?get and Q = ?Q and step = ?step
          and P = "\<lambda>i. i < Suc i" and \<sigma> = "(ga, r)" and xs = xs, OF step i0 all])
  note fw = fw0[unfolded res]
  note fwI = fw[THEN conjunct1]
  note fwL = fw[THEN conjunct2, THEN conjunct1]
  note fwA = fw[THEN conjunct2, THEN conjunct2, rule_format]
  from fwI have pre': "ga_pre ga'" and n': "ga_n ga' = ga_n ga"
    and same: "ga_solved ga' = ga_solved ga \<and> ga_solution ga' = ga_solution ga"
    by simp_all
  from fwL have len: "length (ga_population ga') = length (ga_population ga)" by simp
  have "\<forall>j < length (ga_population ga'). board_ok (ga_n ga') (chromosome (ga_population ga' ! j))"
  proof (intro allI impI)
    fix j assume "j < length (ga_population ga')"
    then have j: "j < length (ga_population ga)" using len by simp
    then have jp: "j < ga_populationSize ga" using pre by (simp add: ga_pre_def)
    show "board_ok (ga_n ga') (chromosome (ga_population ga' ! j))"
    proof (cases "j \<in> set xs")
      case True
      from fwA[of j, THEN conjunct1] j True show ?thesis unfolding n' by simp
    next
      case False
      from fwA[of j, THEN conjunct2] j False
      have "ga_population ga' ! j = ga_population ga ! j" by simp
      with cover jp False show ?thesis unfolding n' by simp
    qed
  qed
  with pre' same show ?thesis by (simp add: ga_inv_def list_all_length)
qed

lemma initializePopulation_inv:
  assumes "ga_pre ga" and "initializePopulation ga r = (ga', r')"
  shows "ga_inv ga' \<and> ga_solved ga' = ga_solved ga \<and> ga_solution ga' = ga_solution ga"
  by (rule initializeIndividual_fold_inv[OF assms(1) assms(2)[unfolded initializePopulation_def]])
     simp

lemma ga_adapt_inv:
  assumes "ga_inv ga" and "ga_adapt ga k r = (ga', r')"
  shows "ga_inv ga' \<and> ga_solved ga' = ga_solved ga \<and> ga_solution ga' = ga_solution ga"
proof (cases "k > 20")
  case False
  with assms show ?thesis by (auto simp: ga_adapt_def ga_inv_def ga_pre_def)
next
  case True
  let ?g = "ga\<lparr>ga_mutationRate := f64_0_3\<rparr>"
  have inv: "ga_inv ?g" using assms(1) by (simp add: ga_inv_def ga_pre_def)
  then have pre: "ga_pre ?g" by (simp add: ga_inv_def)
  from True assms(2) have res: "fold (\<lambda>i (ga, r). initializeIndividual ga i r)
          [ga_populationSize ?g * 4 div 5 ..< ga_populationSize ?g] (?g, r) = (ga', r')"
    by (simp add: ga_adapt_def)
  have "\<forall>j < ga_populationSize ?g. board_ok (ga_n ?g) (chromosome (ga_population ?g ! j))"
    using inv by (simp add: ga_inv_def ga_pre_def list_all_length)
  then have cover: "\<forall>j < ga_populationSize ?g.
       j \<notin> set [ga_populationSize ?g * 4 div 5 ..< ga_populationSize ?g]
         \<longrightarrow> board_ok (ga_n ?g) (chromosome (ga_population ?g ! j))"
    by blast
  from initializeIndividual_fold_inv[OF pre res cover] show ?thesis by simp
qed

lemma calculateFitness_cong:
  "ga_n ga' = ga_n ga \<Longrightarrow> calculateFitness ga' c = calculateFitness ga c"
  by (simp add: calculateFitness_full)

lemma evaluate_fold_result:
  assumes "k \<le> length (ga_population ga)"
  shows "fold (\<lambda>i ga.
          ga\<lparr>ga_population := (ga_population ga)
               [i := (ga_population ga ! i)
                       \<lparr>fitness := calculateFitness ga (chromosome (ga_population ga ! i))\<rparr>]\<rparr>)
        [0 ..< k] ga
     = ga\<lparr>ga_population :=
           map (\<lambda>ind. ind\<lparr>fitness := calculateFitness ga (chromosome ind)\<rparr>)
             (take k (ga_population ga)) @ drop k (ga_population ga)\<rparr>"
  using assms
proof (induction k)
  case 0
  show ?case by simp
next
  case (Suc k)
  let ?f = "\<lambda>ind. ind\<lparr>fitness := calculateFitness ga (chromosome ind)\<rparr>"
  let ?p = "ga_population ga"
  let ?g = "ga\<lparr>ga_population := map ?f (take k ?p) @ drop k ?p\<rparr>"
  from Suc.prems have k: "k < length ?p" by simp
  have at: "(map ?f (take k ?p) @ drop k ?p) ! k = ?p ! k"
    using k by (simp add: nth_append)
  have upd: "(map ?f (take k ?p) @ drop k ?p)[k := ?f (?p ! k)]
      = map ?f (take (Suc k) ?p) @ drop (Suc k) ?p"
    using k by (simp add: list_update_append take_Suc_conv_app_nth Cons_nth_drop_Suc[symmetric])
  have cf: "\<And>c. calculateFitness ?g c = calculateFitness ga c"
    by (rule calculateFitness_cong) simp
  have "fold (\<lambda>i ga.
          ga\<lparr>ga_population := (ga_population ga)
               [i := (ga_population ga ! i)
                       \<lparr>fitness := calculateFitness ga (chromosome (ga_population ga ! i))\<rparr>]\<rparr>)
        [0 ..< Suc k] ga
      = ?g\<lparr>ga_population := (ga_population ?g)
               [k := (ga_population ?g ! k)
                       \<lparr>fitness := calculateFitness ?g (chromosome (ga_population ?g ! k))\<rparr>]\<rparr>"
    using Suc by simp
  also have "\<dots> = ga\<lparr>ga_population := (map ?f (take k ?p) @ drop k ?p)[k := ?f (?p ! k)]\<rparr>"
    by (simp add: cf at)
  finally show ?case by (simp only: upd)
qed

lemma evaluatePopulation_result:
  assumes "length (ga_population ga) = ga_populationSize ga"
  shows "evaluatePopulation srt ga
     = ga\<lparr>ga_population := srt
             (map (\<lambda>ind. ind\<lparr>fitness := calculateFitness ga (chromosome ind)\<rparr>) (ga_population ga))\<rparr>"
  using evaluate_fold_result[of "ga_populationSize ga" ga] assms
  by (simp add: evaluatePopulation_def Let_def)

lemma sorts_by_fitness_set:
  assumes "sorts_by_fitness srt"
  shows "set (srt xs) = set xs"
proof -
  from assms have c: "\<And>x. count_list (srt xs) x = count_list xs x"
    by (simp add: sorts_by_fitness_def)
  have "x \<in> set (srt xs) \<longleftrightarrow> x \<in> set xs" for x
    using c[of x] count_list_0_iff[of "srt xs" x] count_list_0_iff[of xs x] by simp
  then show ?thesis by blast
qed

lemma sorts_by_fitness_length:
  assumes "sorts_by_fitness srt"
  shows "length (srt xs) = length xs"
proof -
  from assms have c: "\<And>x. count_list (srt xs) x = count_list xs x"
    by (simp add: sorts_by_fitness_def)
  have "length (srt xs) = sum (count_list (srt xs)) (set xs)"
    by (rule sum_count_set[symmetric]) (simp_all add: sorts_by_fitness_set[OF assms])
  also have "\<dots> = sum (count_list xs) (set xs)" by (simp add: c)
  also have "\<dots> = length xs" by (rule sum_count_set) simp_all
  finally show ?thesis .
qed

lemma sorts_by_fitness_sorted:
  "sorts_by_fitness srt \<Longrightarrow> sorted (map fitness (srt xs))"
  by (simp add: sorts_by_fitness_def)

text \<open>The stable insertion sort \<open>sort_key\<close> is one such sort.\<close>

lemma sorts_by_fitness_sort_key: "sorts_by_fitness (sort_key fitness)"
proof -
  have "count_list (sort_key fitness xs) x = count_list xs x" for xs :: "Individual list" and x
  proof (induction xs)
    case Nil
    show ?case by simp
  next
    case (Cons a xs)
    have ins: "count_list (insort_key fitness a ys) x = count_list (a # ys) x"
      for ys :: "Individual list"
      by (induction ys) auto
    from Cons show ?case by (simp add: ins)
  qed
  then show ?thesis by (simp add: sorts_by_fitness_def sorted_sort_key)
qed

lemma evaluatePopulation_inv:
  assumes srt: "sorts_by_fitness srt" and "ga_inv ga"
  shows "ga_inv (evaluatePopulation srt ga)
     \<and> ga_n (evaluatePopulation srt ga) = ga_n ga
     \<and> ga_solved (evaluatePopulation srt ga) = ga_solved ga
     \<and> ga_solution (evaluatePopulation srt ga) = ga_solution ga
     \<and> (\<forall>ind \<in> set (ga_population (evaluatePopulation srt ga)).
           fitness ind = calculateFitness ga (chromosome ind))"
proof -
  from assms(2) have len: "length (ga_population ga) = ga_populationSize ga"
    by (simp add: ga_inv_def ga_pre_def)
  note e = evaluatePopulation_result[OF len]
  show ?thesis unfolding e using assms(2)
    by (auto simp: ga_inv_def ga_pre_def list_all_iff sorts_by_fitness_set[OF srt]
        sorts_by_fitness_length[OF srt])
qed

lemma tournament_fold_member:
  assumes "fold (\<lambda>i (best, r).
                 let (k, r) = Intn (ga_populationSize ga) r;
                     candidate = ga_population ga ! k
                 in if fitness candidate < fitness best then (candidate, r) else (best, r))
           xs (b, r) = (b', r')"
    and "b \<in> set (ga_population ga)" and "ga_pre ga"
  shows "b' \<in> set (ga_population ga)"
  using assms(1,2)
proof (induction xs arbitrary: b r)
  case Nil
  then show ?case by simp
next
  case (Cons x xs)
  obtain k r1 where d: "Intn (ga_populationSize ga) r = (k, r1)"
    by (cases "Intn (ga_populationSize ga) r")
  have "k < ga_populationSize ga"
    using Intn_less[of "ga_populationSize ga" r] d assms(3) by (simp add: ga_pre_def)
  then have m: "ga_population ga ! k \<in> set (ga_population ga)"
    using assms(3) by (simp add: ga_pre_def)
  let ?b1 = "if fitness (ga_population ga ! k) < fitness b then ga_population ga ! k else b"
  from Cons.prems(1) d
  have rest: "fold (\<lambda>i (best, r).
                 let (k, r) = Intn (ga_populationSize ga) r;
                     candidate = ga_population ga ! k
                 in if fitness candidate < fitness best then (candidate, r) else (best, r))
           xs (?b1, r1) = (b', r')"
    by (simp add: Let_def split: if_splits)
  have "?b1 \<in> set (ga_population ga)" using m Cons.prems(2) by simp
  from Cons.IH[OF rest this] show ?case .
qed

lemma tournamentSelection_member:
  assumes "ga_pre ga"
  shows "fst (tournamentSelection ga r) \<in> set (ga_population ga)"
proof -
  obtain k r1 where d: "Intn (ga_populationSize ga) r = (k, r1)"
    by (cases "Intn (ga_populationSize ga) r")
  have "k < ga_populationSize ga"
    using Intn_less[of "ga_populationSize ga" r] d assms by (simp add: ga_pre_def)
  then have m: "ga_population ga ! k \<in> set (ga_population ga)"
    using assms by (simp add: ga_pre_def)
  obtain b' r' where t: "tournamentSelection ga r = (b', r')"
    by (cases "tournamentSelection ga r")
  from t[unfolded tournamentSelection_def Let_def d prod.case]
  have "b' \<in> set (ga_population ga)"
    by (rule tournament_fold_member[unfolded Let_def, OF _ m assms])
  with t show ?thesis by simp
qed

lemma ox_fill_board_ok:
  assumes "fold (\<lambda>i (child, childIndex).
        let parent2Index = (e + 1 + i) mod n
        in if \<not> used (parent2 ! parent2Index)
           then (child[childIndex := parent2 ! parent2Index], (childIndex + 1) mod n)
           else (child, childIndex)) xs (c, ci) = (c', ci')"
    and "board_ok n c" and "board_ok n parent2" and "0 < n"
  shows "board_ok n c'"
  using assms(1,2)
proof (induction xs arbitrary: c ci)
  case Nil
  then show ?case by simp
next
  case (Cons x xs)
  let ?v = "parent2 ! ((e + 1 + x) mod n)"
  have v: "0 \<le> ?v \<and> ?v < int n"
    by (rule board_ok_set[OF assms(3)]) (simp add: assms(4))
  show ?case
  proof (cases "used ?v")
    case True
    with Cons.prems(1) have "fold (\<lambda>i (child, childIndex).
        let parent2Index = (e + 1 + i) mod n
        in if \<not> used (parent2 ! parent2Index)
           then (child[childIndex := parent2 ! parent2Index], (childIndex + 1) mod n)
           else (child, childIndex)) xs (c, ci) = (c', ci')"
      by (simp add: Let_def)
    from Cons.IH[OF this Cons.prems(2)] show ?thesis .
  next
    case False
    with Cons.prems(1) have rest: "fold (\<lambda>i (child, childIndex).
        let parent2Index = (e + 1 + i) mod n
        in if \<not> used (parent2 ! parent2Index)
           then (child[childIndex := parent2 ! parent2Index], (childIndex + 1) mod n)
           else (child, childIndex)) xs (c[ci := ?v], (ci + 1) mod n) = (c', ci')"
      by (simp add: Let_def)
    have "board_ok n (c[ci := ?v])" using Cons.prems(2) v by (intro board_ok_update_int) simp_all
    from Cons.IH[OF rest this] show ?thesis .
  qed
qed

lemma orderCrossover_board_ok:
  assumes "0 < ga_n ga" and "board_ok (ga_n ga) parent1" and "board_ok (ga_n ga) parent2"
  shows "board_ok (ga_n ga) (fst (orderCrossover ga parent1 parent2 r))"
proof -
  let ?n = "ga_n ga"
  obtain d1 r1 where i1: "Intn ?n r = (d1, r1)" by (cases "Intn ?n r")
  obtain d2 r2 where i2: "Intn ?n r1 = (d2, r2)" by (cases "Intn ?n r1")
  have d1: "d1 < ?n" using Intn_less[OF assms(1), of r] i1 by simp
  have d2: "d2 < ?n" using Intn_less[OF assms(1), of r1] i2 by simp
  obtain s e where swap: "(if d1 > d2 then (d2, d1) else (d1, d2)) = (s, e)"
    by (cases "if d1 > d2 then (d2, d1) else (d1, d2)")
  have en: "e < ?n" using swap d1 d2 by (auto split: if_splits)
  obtain c1 used where cs:
    "ox_copySegment parent1 s e (replicate ?n 0, \<lambda>_. False) = (c1, used)"
    by (cases "ox_copySegment parent1 s e (replicate ?n 0, \<lambda>_. False)")
  obtain c2 ci2 where fl: "ox_fill ?n parent2 e used (c1, (e + 1) mod ?n) = (c2, ci2)"
    by (cases "ox_fill ?n parent2 e used (c1, (e + 1) mod ?n)")
  have oc: "orderCrossover ga parent1 parent2 r = (c2, r2)"
    by (simp only: orderCrossover_def Let_def i1 i2 swap cs fl prod.case)
  from ox_copySegment_result[OF cs] en
  have lc1: "length c1 = ?n"
    and seg1: "\<forall>i < ?n. c1 ! i = (if s \<le> i \<and> i \<le> e then parent1 ! i else 0)"
    by simp_all
  have ok1: "board_ok ?n c1"
    unfolding board_ok_def list_all_length
  proof (intro conjI allI impI)
    show "length c1 = ?n" by (rule lc1)
  next
    fix i assume "i < length c1"
    then have i: "i < ?n" using lc1 by simp
    with seg1 board_ok_set[OF assms(2) i] assms(1) show "0 \<le> c1 ! i" by simp
  next
    fix i assume "i < length c1"
    then have i: "i < ?n" using lc1 by simp
    with seg1 board_ok_set[OF assms(2) i] assms(1) show "c1 ! i < int ?n" by simp
  qed
  have "board_ok ?n c2"
    by (rule ox_fill_board_ok[OF fl[unfolded ox_fill_def] ok1 assms(3,1)])
  with oc show ?thesis by simp
qed

lemma ga_tryRows_fold:
  assumes "fold (\<lambda>attempts (c, bestRow, minConflicts, r).
        let (testRow, r) = Intn (ga_n ga) r
        in if int testRow \<noteq> c ! col then
             let originalRow = c ! col;
                 c = c[col := int testRow];
                 conflicts = ga_calculateConflictsForPosition ga c col;
                 (bestRow, minConflicts) =
                    (if conflicts < minConflicts then (int testRow, conflicts)
                     else (bestRow, minConflicts));
                 c = c[col := originalRow]
             in (c, bestRow, minConflicts, r)
           else (c, bestRow, minConflicts, r)) xs (c, b, m, r) = (c', b', m', r')"
    and "0 < ga_n ga" and "0 \<le> b \<and> b < int (ga_n ga)"
  shows "c' = c \<and> 0 \<le> b' \<and> b' < int (ga_n ga)"
  using assms(1,3)
proof (induction xs arbitrary: b m r)
  case Nil
  then show ?case by simp
next
  case (Cons x xs)
  let ?step = "\<lambda>attempts (c, bestRow, minConflicts, r).
        let (testRow, r) = Intn (ga_n ga) r
        in if int testRow \<noteq> c ! col then
             let originalRow = c ! col;
                 c = c[col := int testRow];
                 conflicts = ga_calculateConflictsForPosition ga c col;
                 (bestRow, minConflicts) =
                    (if conflicts < minConflicts then (int testRow, conflicts)
                     else (bestRow, minConflicts));
                 c = c[col := originalRow]
             in (c, bestRow, minConflicts, r)
           else (c, bestRow, minConflicts, r)"
  obtain t r1 where d: "Intn (ga_n ga) r = (t, r1)" by (cases "Intn (ga_n ga) r")
  have t: "t < ga_n ga" using Intn_less[OF assms(2), of r] d by simp
  have restore: "c[col := int t, col := c ! col] = c" by simp
  let ?cf = "ga_calculateConflictsForPosition ga (c[col := int t]) col"
  let ?b1 = "if int t \<noteq> c ! col \<and> ?cf < m then int t else b"
  let ?m1 = "if int t \<noteq> c ! col \<and> ?cf < m then ?cf else m"
  have s1: "?step x (c, b, m, r) = (c, ?b1, ?m1, r1)"
    using d restore by (simp add: Let_def)
  have b1: "?b1 = b \<or> ?b1 = int t" by simp
  from Cons.prems(1) s1 have rest: "fold ?step xs (c, ?b1, ?m1, r1) = (c', b', m', r')"
    by (simp only: fold_simps comp_apply)
  have "0 \<le> ?b1 \<and> ?b1 < int (ga_n ga)" using Cons.prems(2) t by auto
  from Cons.IH[OF rest this] show ?case .
qed

lemma smartMutation_board_ok:
  assumes "0 < ga_n ga" and "board_ok (ga_n ga) c"
  shows "board_ok (ga_n ga) (fst (smartMutation ga c r))"
proof -
  let ?n = "ga_n ga"
  obtain s r1 where f: "Float64 r = (s, r1)" by (cases "Float64 r")
  obtain p1 r2 where i1: "Intn ?n r1 = (p1, r2)" by (cases "Intn ?n r1")
  obtain p2 r3 where i2: "Intn ?n r2 = (p2, r3)" by (cases "Intn ?n r2")
  have p1: "p1 < ?n" using Intn_less[OF assms(1), of r1] i1 by simp
  have p2: "p2 < ?n" using Intn_less[OF assms(1), of r2] i2 by simp
  have random: "board_ok ?n (c[p1 := int p2])"
    using assms(2) p2 by (intro board_ok_update_int) simp_all
  have swapped: "board_ok ?n (c[p1 := c ! p2, p2 := c ! p1])"
    using assms(2) board_ok_set[OF assms(2) p1] board_ok_set[OF assms(2) p2]
    by (intro board_ok_update_int) simp_all
  let ?cf = "filter (\<lambda>i. ga_calculateConflictsForPosition ga c i > 0) [0 ..< ?n]"
  consider (swap) "s < f64_0_5"
    | (repair) "\<not> s < f64_0_5" "s < f64_0_8" "length ?cf > 0"
    | (fallback) "\<not> s < f64_0_5" "s < f64_0_8" "\<not> length ?cf > 0"
    | (random) "\<not> s < f64_0_5" "\<not> s < f64_0_8"
    by blast
  then show ?thesis
  proof cases
    case swap
    with f i1 i2 swapped show ?thesis by (simp add: smartMutation_def Let_def)
  next
    case fallback
    with f i1 i2 random show ?thesis by (simp add: smartMutation_def Let_def)
  next
    case random
    with f i1 i2 \<open>board_ok ?n (c[p1 := int p2])\<close> show ?thesis
      by (simp add: smartMutation_def Let_def)
  next
    case repair
    obtain k r4 where j1: "Intn (length ?cf) r1 = (k, r4)" by (cases "Intn (length ?cf) r1")
    have "k < length ?cf" using Intn_less[of "length ?cf" r1] j1 repair(3) by simp
    then have "?cf ! k \<in> set ?cf" by (rule nth_mem)
    then have col: "?cf ! k < ?n" by simp
    let ?col = "?cf ! k"
    obtain c' b' m' r' where tr:
      "ga_tryRows ga ?col (c, c ! ?col, ga_calculateConflictsForPosition ga c ?col, r4)
         = (c', b', m', r')"
      by (cases "ga_tryRows ga ?col (c, c ! ?col, ga_calculateConflictsForPosition ga c ?col, r4)")
    from ga_tryRows_fold[OF tr[unfolded ga_tryRows_def] assms(1) board_ok_set[OF assms(2) col]]
    have c': "c' = c" and b': "0 \<le> b' \<and> b' < int ?n" by simp_all
    have "board_ok ?n (c[?col := b'])"
      using assms(2) b' by (intro board_ok_update_int) simp_all
    with repair f j1 tr c' show ?thesis by (simp add: smartMutation_def Let_def)
  qed
qed

lemma ga_breed_board_ok:
  assumes "ga_inv ga"
  shows "board_ok (ga_n ga) (chromosome (fst (ga_breed ga r)))"
proof -
  from assms have pre: "ga_pre ga" and pos: "0 < ga_n ga" by (simp_all add: ga_inv_def ga_pre_def)
  have sel: "\<And>r. board_ok (ga_n ga) (chromosome (fst (tournamentSelection ga r)))"
    by (rule ga_inv_nth[OF assms tournamentSelection_member[OF pre]])
  have mut: "\<And>c r m. board_ok (ga_n ga) c \<Longrightarrow>
      board_ok (ga_n ga) (fst (if m then smartMutation ga c r else (c, r)))"
    using smartMutation_board_ok[OF pos] by simp
  obtain u r1 where f: "Float64 r = (u, r1)" by (cases "Float64 r")
  show ?thesis
  proof (cases "u < ga_crossoverRate ga")
    case True
    obtain pa r2 where t1: "tournamentSelection ga r1 = (pa, r2)"
      by (cases "tournamentSelection ga r1")
    obtain pb r3 where t2: "tournamentSelection ga r2 = (pb, r3)"
      by (cases "tournamentSelection ga r2")
    obtain ch r4 where x: "smartCrossover ga pa pb r3 = (ch, r4)"
      by (cases "smartCrossover ga pa pb r3")
    obtain m r5 where f2: "Float64 r4 = (m, r5)" by (cases "Float64 r4")
    have "board_ok (ga_n ga) (chromosome pa)" "board_ok (ga_n ga) (chromosome pb)"
      using sel[of r1] sel[of r2] t1 t2 by simp_all
    then have "board_ok (ga_n ga) ch"
      using orderCrossover_board_ok[OF pos, of "chromosome pa" "chromosome pb" r3] x
      by (simp add: smartCrossover_def)
    then have "board_ok (ga_n ga) (fst (if m < ga_mutationRate ga then smartMutation ga ch r5 else (ch, r5)))"
      by (rule mut)
    moreover have "chromosome (fst (ga_breed ga r))
        = fst (if m < ga_mutationRate ga then smartMutation ga ch r5 else (ch, r5))"
      using True f t1 t2 x f2
      by (simp add: ga_breed_def Let_def case_prod_beta)
    ultimately show ?thesis by simp
  next
    case False
    obtain pa r2 where t1: "tournamentSelection ga r1 = (pa, r2)"
      by (cases "tournamentSelection ga r1")
    obtain m r3 where f2: "Float64 r2 = (m, r3)" by (cases "Float64 r2")
    have ok: "board_ok (ga_n ga) (chromosome pa)" using sel[of r1] t1 by simp
    then have "copy_go (replicate (ga_n ga) 0) (chromosome pa) = chromosome pa"
      by (simp add: board_ok_def)
    then have "chromosome (fst (ga_breed ga r))
        = fst (if m < ga_mutationRate ga then smartMutation ga (chromosome pa) r3
               else (chromosome pa, r3))"
      using False f t1 f2
      by (simp add: ga_breed_def Let_def case_prod_beta)
    with mut[OF ok, of "m < ga_mutationRate ga" r3] show ?thesis by simp
  qed
qed

lemma createNewGeneration_inv:
  assumes inv: "ga_inv ga" and cn: "createNewGeneration ga r = (np, r')"
  shows "length np = ga_populationSize ga
     \<and> list_all (\<lambda>ind. board_ok (ga_n ga) (chromosome ind)) np"
proof -
  let ?n = "ga_n ga"
  let ?ps = "ga_populationSize ga"
  let ?Q = "\<lambda>v. board_ok ?n (chromosome v)"
  let ?e0 = "?ps div 10"
  let ?e1 = "if ?e0 < 2 then 2 else ?e0"
  let ?es = "if ?e1 > 10 then 10 else ?e1"
  let ?np0 = "replicate ?ps \<lparr>chromosome = [], fitness = 0\<rparr>"
  let ?estep = "\<lambda>i newPopulation.
                    newPopulation[i :=
                      \<lparr> chromosome = copy_go (replicate ?n 0) (chromosome (ga_population ga ! i)),
                        fitness = fitness (ga_population ga ! i) \<rparr>]"
  let ?bstep = "\<lambda>i (newPopulation, r).
                 case ga_breed ga r of (child, r) \<Rightarrow> (newPopulation[i := child], r)"
  let ?elite = "fold ?estep [0 ..< ?es] ?np0"
  from inv have pre: "ga_pre ga" by (simp add: ga_inv_def)
  then have ps2: "2 \<le> ?ps" and len: "length (ga_population ga) = ?ps"
    by (simp_all add: ga_pre_def)
  have es: "?es \<le> ?ps" using ps2 by auto
  have estep: "\<And>i \<sigma>. i < ?ps \<Longrightarrow> True \<Longrightarrow>
      True \<and> (\<exists>v. id (?estep i \<sigma>) = (id \<sigma>)[i := v] \<and> ?Q v)"
  proof -
    fix i and \<sigma> :: "Individual list"
    assume i: "i < ?ps"
    then have "ga_population ga ! i \<in> set (ga_population ga)" using len by simp
    from ga_inv_nth[OF inv this] have ok: "board_ok ?n (chromosome (ga_population ga ! i))" .
    then have "copy_go (replicate ?n 0) (chromosome (ga_population ga ! i))
        = chromosome (ga_population ga ! i)"
      by (simp add: board_ok_def)
    with ok have "?Q \<lparr> chromosome = copy_go (replicate ?n 0) (chromosome (ga_population ga ! i)),
                        fitness = fitness (ga_population ga ! i) \<rparr>"
      by simp
    then show "True \<and> (\<exists>v. id (?estep i \<sigma>) = (id \<sigma>)[i := v] \<and> ?Q v)"
      by (intro conjI TrueI exI[of _ "\<lparr> chromosome = copy_go (replicate ?n 0)
            (chromosome (ga_population ga ! i)), fitness = fitness (ga_population ga ! i) \<rparr>"]) simp
  qed
  have eall: "\<forall>i \<in> set [0 ..< ?es]. i < ?ps" using es by auto
  have efw: "True
     \<and> length (id (fold ?estep [0 ..< ?es] ?np0)) = length (id ?np0)
     \<and> (\<forall>j < length (id ?np0).
           (j \<in> set [0 ..< ?es] \<longrightarrow> ?Q (id (fold ?estep [0 ..< ?es] ?np0) ! j))
         \<and> (j \<notin> set [0 ..< ?es] \<longrightarrow> id (fold ?estep [0 ..< ?es] ?np0) ! j = id ?np0 ! j))"
    by (rule fold_writes[where I = "\<lambda>_. True" and get = id and Q = ?Q and step = ?estep
          and P = "\<lambda>i. i < ?ps" and \<sigma> = ?np0 and xs = "[0 ..< ?es]", OF estep TrueI eall])
  have elen: "length ?elite = ?ps" using efw by simp
  have eok: "\<And>j. j < ?es \<Longrightarrow> ?Q (?elite ! j)"
  proof -
    fix j assume j: "j < ?es"
    then have "j < length (id ?np0)" using es by simp
    with efw[THEN conjunct2, THEN conjunct2, rule_format, of j, THEN conjunct1] j
    show "?Q (?elite ! j)" by simp
  qed
  have bstep: "\<And>i \<sigma>. i < Suc i \<Longrightarrow> True \<Longrightarrow>
      True \<and> (\<exists>v. fst (?bstep i \<sigma>) = (fst \<sigma>)[i := v] \<and> ?Q v)"
  proof -
    fix i and \<sigma> :: "Individual list \<times> rng"
    obtain p s where s: "\<sigma> = (p, s)" by (cases \<sigma>)
    obtain ch s' where b: "ga_breed ga s = (ch, s')" by (cases "ga_breed ga s")
    have "?Q ch" using ga_breed_board_ok[OF inv, of s] b by simp
    then show "True \<and> (\<exists>v. fst (?bstep i \<sigma>) = (fst \<sigma>)[i := v] \<and> ?Q v)"
      unfolding s by (intro conjI TrueI exI[of _ ch]) (simp add: b)
  qed
  have ball: "\<forall>i \<in> set [?es ..< ?ps]. i < Suc i" by simp
  have bfw: "True
     \<and> length (fst (fold ?bstep [?es ..< ?ps] (?elite, r))) = length (fst (?elite, r))
     \<and> (\<forall>j < length (fst (?elite, r)).
           (j \<in> set [?es ..< ?ps] \<longrightarrow> ?Q (fst (fold ?bstep [?es ..< ?ps] (?elite, r)) ! j))
         \<and> (j \<notin> set [?es ..< ?ps] \<longrightarrow>
               fst (fold ?bstep [?es ..< ?ps] (?elite, r)) ! j = fst (?elite, r) ! j))"
    by (rule fold_writes[where I = "\<lambda>_. True" and get = fst and Q = ?Q and step = ?bstep
          and P = "\<lambda>i. i < Suc i" and \<sigma> = "(?elite, r)" and xs = "[?es ..< ?ps]",
          OF bstep TrueI ball])
  have res: "fold ?bstep [?es ..< ?ps] (?elite, r) = (np, r')"
    using cn by (simp add: createNewGeneration_def Let_def)
  note bfw' = bfw[unfolded res]
  have nlen: "length np = ?ps" using bfw'[THEN conjunct2, THEN conjunct1] elen by simp
  have "\<forall>j < length np. ?Q (np ! j)"
  proof (intro allI impI)
    fix j assume "j < length np"
    then have j: "j < ?ps" using nlen by simp
    then have jl: "j < length (fst (?elite, r))" using elen by simp
    show "?Q (np ! j)"
    proof (cases "j < ?es")
      case True
      then have "j \<notin> set [?es ..< ?ps]" by simp
      with bfw'[THEN conjunct2, THEN conjunct2, rule_format, OF jl, THEN conjunct2]
      have "np ! j = ?elite ! j" by simp
      with eok[OF True] show ?thesis by simp
    next
      case False
      with j have "j \<in> set [?es ..< ?ps]" by simp
      with bfw'[THEN conjunct2, THEN conjunct2, rule_format, OF jl, THEN conjunct1]
      show ?thesis by simp
    qed
  qed
  with nlen show ?thesis by (simp add: list_all_length)
qed

lemma ga_outcome_trans:
  assumes "ga_solved b = ga_solved a" and "ga_solution b = ga_solution a" and "ga_n b = ga_n a"
    and "ga_outcome b found c"
  shows "ga_outcome a found c"
  using assms calculateFitness_cong[OF assms(3)] by (cases found) (simp_all add: ga_outcome_def)

lemma ga_best_found:
  assumes srt: "sorts_by_fitness srt" and inv: "ga_inv ga"
    and zero: "fitness (ga_population (evaluatePopulation srt ga) ! 0) = 0"
  shows "ga_inv ((evaluatePopulation srt ga)
           \<lparr>ga_solution := copy_go (replicate (ga_n (evaluatePopulation srt ga)) 0)
               (chromosome (ga_population (evaluatePopulation srt ga) ! 0)), ga_solved := True\<rparr>)
     \<and> ga_outcome ga True ((evaluatePopulation srt ga)
           \<lparr>ga_solution := copy_go (replicate (ga_n (evaluatePopulation srt ga)) 0)
               (chromosome (ga_population (evaluatePopulation srt ga) ! 0)), ga_solved := True\<rparr>)"
proof -
  let ?e = "evaluatePopulation srt ga"
  let ?h = "ga_population ?e ! 0"
  note ev = evaluatePopulation_inv[OF srt inv]
  from ev have einv: "ga_inv ?e" and n: "ga_n ?e = ga_n ga" by simp_all
  from einv have "0 < length (ga_population ?e)" by (simp add: ga_inv_def ga_pre_def)
  then have mem: "?h \<in> set (ga_population ?e)" by simp
  from ga_inv_nth[OF einv mem] have ok: "board_ok (ga_n ga) (chromosome ?h)" by (simp add: n)
  then have cp: "copy_go (replicate (ga_n ?e) 0) (chromosome ?h) = chromosome ?h"
    by (simp add: board_ok_def n)
  from ev mem have "fitness ?h = calculateFitness ga (chromosome ?h)" by blast
  with zero have z: "calculateFitness ga (chromosome ?h) = 0" by simp
  have "ga_inv (?e\<lparr>ga_solution := chromosome ?h, ga_solved := True\<rparr>)"
    using einv by (simp add: ga_inv_def ga_pre_def)
  moreover have "ga_outcome ga True (?e\<lparr>ga_solution := chromosome ?h, ga_solved := True\<rparr>)"
    using ok z by (simp add: ga_outcome_def)
  ultimately show ?thesis unfolding cp by simp
qed

lemma ga_finalCheck_result:
  assumes srt: "sorts_by_fitness srt" and inv: "ga_inv ga" and fc: "ga_finalCheck srt ga r = (found, ga', r')"
  shows "ga_inv ga' \<and> ga_outcome ga found ga'"
proof (cases "fitness (ga_population (evaluatePopulation srt ga) ! 0) = 0")
  case True
  with fc have "found"
    and "ga' = (evaluatePopulation srt ga)
           \<lparr>ga_solution := copy_go (replicate (ga_n (evaluatePopulation srt ga)) 0)
               (chromosome (ga_population (evaluatePopulation srt ga) ! 0)), ga_solved := True\<rparr>"
    by (auto simp: ga_finalCheck_def Let_def)
  with ga_best_found[OF srt inv True] show ?thesis by simp
next
  case False
  with fc have "\<not> found" and "ga' = evaluatePopulation srt ga"
    by (auto simp: ga_finalCheck_def Let_def)
  with evaluatePopulation_inv[OF srt inv] show ?thesis by (simp add: ga_outcome_def)
qed

lemma ga_loop_result:
  assumes srt: "sorts_by_fitness srt"
  shows "ga_inv ga \<Longrightarrow> ga_loop srt ga g k b r = (found, ga', r')
     \<Longrightarrow> ga_inv ga' \<and> ga_outcome ga found ga'"
proof (induction ga g k b r rule: ga_loop_induct[where srt = srt])
  case (step ga g k b r)
  let ?e = "evaluatePopulation srt ga"
  let ?f = "fitness (ga_population ?e ! 0)"
  let ?k = "if ?f < b then 0 else k + 1"
  let ?b = "if ?f < b then ?f else b"
  note inv = step.prems(1)
  note run = step.prems(2)
  note ev = evaluatePopulation_inv[OF srt inv]
  from ev have einv: "ga_inv ?e" and en: "ga_n ?e = ga_n ga"
    and es: "ga_solved ?e = ga_solved ga" and esol: "ga_solution ?e = ga_solution ga"
    by simp_all
  consider (final) "\<not> g < ga_maxGenerations ga"
    | (found) "g < ga_maxGenerations ga" "?f = 0"
    | (stuck) "g < ga_maxGenerations ga" "?f \<noteq> 0" "?k > 50"
    | (continue) "g < ga_maxGenerations ga" "?f \<noteq> 0" "\<not> ?k > 50"
    by blast
  then show ?case
  proof cases
    case final
    with run have "ga_finalCheck srt ga r = (found, ga', r')"
      by (simp add: ga_loop_unfold[of srt ga g k b r])
    from ga_finalCheck_result[OF srt inv this] show ?thesis .
  next
    case found
    with run have "found" and "ga' = ?e\<lparr>ga_solution := copy_go (replicate (ga_n ?e) 0)
                        (chromosome (ga_population ?e ! 0)), ga_solved := True\<rparr>"
      by (simp_all add: ga_loop_unfold[of srt ga g k b r])
    with ga_best_found[OF srt inv found(2)] show ?thesis by simp
  next
    case stuck
    with run have "ga_finalCheck srt ?e r = (found, ga', r')"
      by (simp add: ga_loop_unfold[of srt ga g k b r])
    from ga_finalCheck_result[OF srt einv this] ga_outcome_trans[OF es esol en]
    show ?thesis by blast
  next
    case continue
    obtain ga1 r1 where ad: "ga_adapt ?e ?k r = (ga1, r1)" by (cases "ga_adapt ?e ?k r")
    obtain np r2 where cn: "createNewGeneration ga1 r1 = (np, r2)"
      by (cases "createNewGeneration ga1 r1")
    from continue ad cn run
    have rec: "ga_loop srt (ga1\<lparr>ga_population := np\<rparr>) (g + 1) ?k ?b r2 = (found, ga', r')"
      by (simp add: ga_loop_unfold[of srt ga g k b r])
    from ga_adapt_inv[OF einv ad] have inv1: "ga_inv ga1"
      and s1: "ga_solved ga1 = ga_solved ?e" and sol1: "ga_solution ga1 = ga_solution ?e"
      by simp_all
    have n1: "ga_n ga1 = ga_n ?e"
      using ga_adapt_params[OF ad] by (simp add: ga_same_params_def)
    from createNewGeneration_inv[OF inv1 cn] inv1
    have inv2: "ga_inv (ga1\<lparr>ga_population := np\<rparr>)"
      by (simp add: ga_inv_def ga_pre_def)
    from step.IH[OF continue(1,2) refl refl continue(3) ad cn inv2 rec]
    have r: "ga_inv ga'" and o: "ga_outcome (ga1\<lparr>ga_population := np\<rparr>) found ga'"
      by simp_all
    have "ga_outcome ga found ga'"
      by (rule ga_outcome_trans[OF _ _ _ o]) (simp_all add: s1 sol1 n1 es esol en)
    with r show ?thesis by simp
  qed
qed

lemma ga_singleRun_result:
  assumes srt: "sorts_by_fitness srt" and pre: "ga_pre ga" and run: "ga_singleRun srt ga r = (found, ga', r')"
  shows "ga_inv ga' \<and> ga_outcome ga found ga'"
proof -
  obtain ga0 r0 where i: "initializePopulation ga r = (ga0, r0)"
    by (cases "initializePopulation ga r")
  from run i have l: "ga_loop srt ga0 0 0 (int (ga_n ga0 * ga_n ga0)) r0 = (found, ga', r')"
    by (simp add: ga_singleRun_def)
  note i0 = initializePopulation_inv[OF pre i]
  have n0: "ga_n ga0 = ga_n ga"
    using initializePopulation_params[OF i] by (simp add: ga_same_params_def)
  from ga_loop_result[OF srt i0[THEN conjunct1] l]
  have r: "ga_inv ga'" and o: "ga_outcome ga0 found ga'" by simp_all
  have "ga_outcome ga found ga'"
    by (rule ga_outcome_trans[OF _ _ _ o]) (simp_all add: i0 n0)
  with r show ?thesis by simp
qed

lemma ga_restartLoop_result:
  "sorts_by_fitness srt \<Longrightarrow> ga_pre ga \<Longrightarrow> ga_restartLoop srt ga restart r = (found, ga', r')
     \<Longrightarrow> ga_outcome ga found ga'"
proof (induction srt ga restart r rule: ga_restartLoop.induct)
  case (1 srt ga restart r)
  show ?case
  proof (cases "restart < ga_restarts ga")
    case False
    with "1.prems"(3) show ?thesis
      by (subst (asm) ga_restartLoop.simps) (auto simp: ga_outcome_def)
  next
    case lt: True
    obtain f1 ga1 r1 where run: "ga_singleRun srt ga r = (f1, ga1, r1)"
      by (cases "ga_singleRun srt ga r")
    note res = ga_singleRun_result[OF "1.prems"(1,2) run]
    have n1: "ga_n ga1 = ga_n ga"
      using ga_singleRun_params[OF run] by (simp add: ga_same_params_def)
    show ?thesis
    proof (cases f1)
      case True
      with "1.prems"(3) lt run have "found" "ga' = ga1"
        by (subst (asm) ga_restartLoop.simps, simp)+
      with res True show ?thesis by simp
    next
      case False
      with "1.prems"(3) lt run
      have rec: "ga_restartLoop srt ga1 (restart + 1) r1 = (found, ga', r')"
        by (subst (asm) ga_restartLoop.simps) simp
      from res have pre1: "ga_pre ga1" by (simp add: ga_inv_def)
      have o: "ga_outcome ga1 found ga'"
        by (rule "1.IH"[OF lt run[symmetric] refl False "1.prems"(1) pre1 rec])
      from res False have s: "ga_solved ga1 = ga_solved ga" "ga_solution ga1 = ga_solution ga"
        by (simp_all add: ga_outcome_def)
      show ?thesis by (rule ga_outcome_trans[OF s n1 o])
    qed
  qed
qed

lemma NewGeneticSolver_pre: "0 < n \<Longrightarrow> ga_pre (NewGeneticSolver n)"
  by (simp add: ga_pre_def NewGeneticSolver_def Let_def)

lemma NewGeneticSolver_n [simp]: "ga_n (NewGeneticSolver n) = n"
  by (simp add: NewGeneticSolver_def Let_def)

section \<open>What \<open>Solve\<close> returns\<close>

lemma sa_restartLoop_params:
  "sa_restartLoop fp sa restart r = Some (found, sa', r') \<Longrightarrow> sa_same_params sa sa'"
proof (induction fp sa restart r rule: sa_restartLoop.induct)
  case (1 fp sa restart r)
  show ?case
  proof (cases "restart < sa_restarts sa")
    case False
    with "1.prems" show ?thesis by (subst (asm) sa_restartLoop.simps) auto
  next
    case lt: True
    from "1.prems" lt obtain f1 sa1 r1 where
      run: "sa_singleRun fp sa r = Some (f1, sa1, r1)"
      by (subst (asm) sa_restartLoop.simps) (auto split: option.splits)
    note p = sa_singleRun_params[OF run]
    show ?thesis
    proof (cases f1)
      case True
      with "1.prems" lt run have "sa' = sa1"
        by (subst (asm) sa_restartLoop.simps) simp
      with p show ?thesis by simp
    next
      case False
      with "1.prems" lt run
      have rec: "sa_restartLoop fp sa1 (restart + 1) r1 = Some (found, sa', r')"
        by (subst (asm) sa_restartLoop.simps) simp
      from "1.IH"[OF lt run refl refl False rec] p show ?thesis
        by (simp add: sa_same_params_def)
    qed
  qed
qed

lemma ga_restartLoop_params:
  "ga_restartLoop srt ga restart r = (found, ga', r') \<Longrightarrow> ga_same_params ga ga'"
proof (induction srt ga restart r rule: ga_restartLoop.induct)
  case (1 srt ga restart r)
  show ?case
  proof (cases "restart < ga_restarts ga")
    case False
    with "1.prems" show ?thesis by (subst (asm) ga_restartLoop.simps) auto
  next
    case lt: True
    obtain f1 ga1 r1 where run: "ga_singleRun srt ga r = (f1, ga1, r1)"
      by (cases "ga_singleRun srt ga r")
    note p = ga_singleRun_params[OF run]
    show ?thesis
    proof (cases f1)
      case True
      with "1.prems" lt run have "ga' = ga1"
        by (subst (asm) ga_restartLoop.simps) simp
      with p show ?thesis by simp
    next
      case False
      with "1.prems" lt run
      have rec: "ga_restartLoop srt ga1 (restart + 1) r1 = (found, ga', r')"
        by (subst (asm) ga_restartLoop.simps) simp
      from "1.IH"[OF lt run[symmetric] refl False rec] p show ?thesis
        by (blast intro: ga_same_params_trans)
    qed
  qed
qed

lemma greedy_Solve_result:
  assumes len: "length (g_board g) = g_n g" and pos: "0 < g_n g"
    and run: "greedy_Solve g r = (found, g', r')"
  shows "if found
         then g_solved g' \<and> g_n g' = g_n g \<and> board_ok (g_n g) (g_solution g')
              \<and> full_count (g_n g) (g_solution g') = 0
         else g_solved g' = g_solved g \<and> g_solution g' = g_solution g"
proof -
  let ?g0 = "g\<lparr>g_board := map (\<lambda>i. int (r i mod g_n g)) [0 ..< g_n g]\<rparr>"
  from run have loop: "greedy_loop ?g0 0 (rng_drop (g_n g) r) = (found, g', r')"
    by (simp add: greedy_Solve_def randomInit_board[OF len])
  have ok0: "board_ok (g_n ?g0) (g_board ?g0)" using board_ok_random[OF pos, of r] by simp
  have pos0: "0 < g_n ?g0" using pos by simp
  show ?thesis
  proof (cases found)
    case True
    with loop have "greedy_loop ?g0 0 (rng_drop (g_n g) r) = (True, g', r')" by simp
    from greedy_loop_true[OF this ok0 pos0]
    have s: "g_solved g'" and n: "g_n g' = g_n g" and ok: "board_ok (g_n g) (g_solution g')"
      and z: "countConflicts (g'\<lparr>g_board := g_solution g'\<rparr>) = 0"
      by simp_all
    from z n have "full_count (g_n g) (g_solution g') = 0" by (simp add: countConflicts_full)
    with s n ok True show ?thesis by simp
  next
    case False
    with loop have "greedy_loop ?g0 0 (rng_drop (g_n g) r) = (False, g', r')" by simp
    from greedy_loop_false[OF this] False show ?thesis by simp
  qed
qed

lemma sa_Solve_result:
  assumes "length (sa_board sa) = sa_n sa" and "0 < sa_n sa"
    and "sa_Solve fp sa r = Some (found, sa', r')"
  shows "if found
         then sa_solved sa' \<and> sa_n sa' = sa_n sa \<and> board_ok (sa_n sa) (sa_solution sa')
              \<and> full_count (sa_n sa) (sa_solution sa') = 0
         else sa_solved sa' = sa_solved sa \<and> sa_solution sa' = sa_solution sa"
proof -
  from assms(3) have run: "sa_restartLoop fp sa 0 r = Some (found, sa', r')"
    by (simp add: sa_Solve_def)
  have "sa_n sa' = sa_n sa"
    using sa_restartLoop_params[OF run] by (simp add: sa_same_params_def)
  with sa_restartLoop_result[OF run assms(1,2)] show ?thesis
    by (cases found) (simp_all add: calculateCostForBoard_full)
qed

lemma ga_Solve_result:
  assumes "sorts_by_fitness srt" and "ga_pre ga" and "ga_Solve srt ga r = (found, ga', r')"
  shows "if found
         then ga_solved ga' \<and> ga_n ga' = ga_n ga \<and> board_ok (ga_n ga) (ga_solution ga')
              \<and> full_count (ga_n ga) (ga_solution ga') = 0
         else ga_solved ga' = ga_solved ga \<and> ga_solution ga' = ga_solution ga"
proof -
  from assms(3) have run: "ga_restartLoop srt ga 0 r = (found, ga', r')"
    by (simp add: ga_Solve_def)
  have "ga_n ga' = ga_n ga"
    using ga_restartLoop_params[OF run] by (simp add: ga_same_params_def)
  with ga_restartLoop_result[OF assms(1,2) run] show ?thesis
    by (cases found) (simp_all add: ga_outcome_def calculateFitness_full)
qed

lemma zero_count_explicit:
  assumes "full_count N b = 0"
  shows "\<forall>i < N. \<forall>j < N. i \<noteq> j \<longrightarrow>
           b ! i \<noteq> b ! j \<and> abs_go (b ! i - b ! j) \<noteq> abs_go (int i - int j)"
  using assms unfolding full_count_zero_iff valid_solution_def abs_go_abs .

text \<open>Runs that find a solution.\<close>

lemma Perm_4_example: "fst (Perm 4 (stream_of [0, 0, 1, 1])) = [1, 3, 0, 2]"
  by (simp add: Perm_def Intn_def upt_conv_Cons replicate_numeral)

lemma greedy_Solve_example:
  "fst (greedy_Solve (NewGreedySolver 4) (stream_of [1, 3, 0, 2]))
   \<and> g_solution (fst (snd (greedy_Solve (NewGreedySolver 4) (stream_of [1, 3, 0, 2])))) = [1, 3, 0, 2]"
proof -
  let ?g = "NewGreedySolver 4"
  have len: "length (g_board ?g) = g_n ?g" by (simp add: NewGreedySolver_def)
  have b: "map (\<lambda>i. int (stream_of [1, 3, 0, 2] i mod g_n ?g)) [0 ..< g_n ?g] = [1, 3, 0, 2]"
    by (simp add: NewGreedySolver_def stream_of_def upt_conv_Cons)
  have c: "countConflicts (?g\<lparr>g_board := [1, 3, 0, 2]\<rparr>) = 0"
    by (simp add: countConflicts_def NewGreedySolver_def abs_go_def upt_conv_Cons)
  have m: "g_maxIterations ?g = 10000"
    by (simp add: NewGreedySolver_def)
  have n: "g_n ?g = 4" by (simp add: NewGreedySolver_def)
  show ?thesis
    unfolding greedy_Solve_def randomInit_board[OF len] b
    by (simp add: greedy_loop.simps[of "?g\<lparr>g_board := [1, 3, 0, 2]\<rparr>" 0] c m n)
qed

lemma sa_Solve_example:
  "\<exists>sa' r'. sa_Solve fp (NewSimulatedAnnealingSolver 4) (stream_of [0, 0, 1, 1]) = Some (True, sa', r')
     \<and> sa_solution sa' = [1, 3, 0, 2]"
proof -
  let ?sa = "NewSimulatedAnnealingSolver 4"
  let ?r = "stream_of [0, 0, 1, 1]"
  obtain p r0 where p: "Perm 4 ?r = (p, r0)" by (cases "Perm 4 ?r")
  with Perm_4_example have pv: "p = [1, 3, 0, 2]" by simp
  let ?st = "?sa\<lparr>sa_board := [1, 3, 0, 2]\<rparr>"
  have n4: "sa_n ?sa = 4" and b4: "sa_board ?sa = [0, 0, 0, 0]"
    by (simp_all add: NewSimulatedAnnealingSolver_def replicate_numeral)
  have i: "smartInit ?sa ?r = (?st, r0)"
    unfolding smartInit_def n4 p pv b4 by (simp add: copy_go_def)
  have c: "calculateCost ?st = 0"
    by (simp add: calculateCost_def calculateCostForBoard_def NewSimulatedAnnealingSolver_def
        abs_go_def upt_conv_Cons)
  have l: "sa_loop fp ?st 0 (sa_initialTemp ?sa) 0 0 bb r0
      = Some (True, ?st\<lparr>sa_solution := copy_go (replicate (sa_n ?st) 0) (sa_board ?st),
                       sa_solved := True\<rparr>, r0)" for bb
    by (rule sa_loop_found) (simp_all add: NewSimulatedAnnealingSolver_def)
  have run: "sa_singleRun fp ?sa ?r
      = Some (True, ?st\<lparr>sa_solution := copy_go (replicate (sa_n ?st) 0) (sa_board ?st),
                       sa_solved := True\<rparr>, r0)"
    unfolding sa_singleRun_def i by (simp add: Let_def c l)
  have pos: "0 < sa_restarts ?sa" by (simp add: NewSimulatedAnnealingSolver_def)
  have "sa_Solve fp ?sa ?r
      = Some (True, ?st\<lparr>sa_solution := copy_go (replicate (sa_n ?st) 0) (sa_board ?st),
                       sa_solved := True\<rparr>, r0)"
    using run pos unfolding sa_Solve_def by (subst sa_restartLoop.simps) simp
  moreover have "copy_go (replicate (sa_n ?st) 0) (sa_board ?st) = [1, 3, 0, 2]"
    by (simp add: NewSimulatedAnnealingSolver_def replicate_numeral copy_go_def)
  ultimately show ?thesis by simp
qed

lemma ga_loop_finds_present:
  assumes srt: "sorts_by_fitness srt" and inv: "ga_inv ga" and g: "g < ga_maxGenerations ga"
    and ex: "\<exists>ind \<in> set (ga_population ga). calculateFitness ga (chromosome ind) = 0"
  shows "fst (ga_loop srt ga g k b r)"
proof -
  let ?e = "evaluatePopulation srt ga"
  let ?xs = "map (\<lambda>ind. ind\<lparr>fitness := calculateFitness ga (chromosome ind)\<rparr>) (ga_population ga)"
  let ?s = "srt ?xs"
  from inv have len: "length (ga_population ga) = ga_populationSize ga"
    and pos: "0 < length (ga_population ga)"
    by (simp_all add: ga_inv_def ga_pre_def)
  have pop: "ga_population ?e = ?s"
    by (simp add: evaluatePopulation_result[OF len])
  from ex obtain ind where ind: "ind \<in> set (ga_population ga)"
    and z: "calculateFitness ga (chromosome ind) = 0" by blast
  let ?x = "ind\<lparr>fitness := calculateFitness ga (chromosome ind)\<rparr>"
  have "?x \<in> set ?xs" using ind by (simp add: image_iff) blast
  then have "?x \<in> set ?s" by (simp only: sorts_by_fitness_set[OF srt])
  then obtain i where i: "i < length ?s" "?s ! i = ?x" unfolding in_set_conv_nth by blast
  have "sorted (map fitness ?s)" by (rule sorts_by_fitness_sorted[OF srt])
  then have "map fitness ?s ! 0 \<le> map fitness ?s ! i"
    by (rule sorted_nth_mono) (use i in simp_all)
  moreover have l0: "0 < length ?s" using pos by (simp add: sorts_by_fitness_length[OF srt])
  ultimately have "fitness (?s ! 0) \<le> fitness (?s ! i)" using i(1) by (simp only: nth_map)
  also have "\<dots> = 0" unfolding i(2) using z by simp
  finally have le: "fitness (?s ! 0) \<le> 0" .
  note ev = evaluatePopulation_inv[OF srt inv]
  from l0 have "?s ! 0 \<in> set (ga_population ?e)" unfolding pop by (rule nth_mem)
  with ev have "fitness (?s ! 0) = calculateFitness ga (chromosome (?s ! 0))" by blast
  with full_count_nonneg[of "ga_n ga" "chromosome (?s ! 0)"] have "0 \<le> fitness (?s ! 0)"
    by (simp add: calculateFitness_full)
  with le have "fitness (ga_population ?e ! 0) = 0" unfolding pop by simp
  with g show ?thesis by (simp add: ga_loop_unfold[of srt ga g k b r])
qed

lemma initializeIndividual_fold_keeps:
  assumes res: "fold (\<lambda>i (ga, r). initializeIndividual ga i r) xs (ga, r) = (ga', r')"
    and j: "j < length (ga_population ga)" and nin: "j \<notin> set xs"
  shows "ga_population ga' ! j = ga_population ga ! j"
proof -
  let ?get = "\<lambda>\<sigma>. ga_population (fst \<sigma>)"
  let ?step = "\<lambda>i (ga, r). initializeIndividual ga i r"
  have step: "\<And>i \<sigma>. True \<Longrightarrow> True \<Longrightarrow>
      True \<and> (\<exists>v. ?get (?step i \<sigma>) = (?get \<sigma>)[i := v] \<and> True)"
  proof -
    fix i and \<sigma> :: "GeneticSolver \<times> rng"
    obtain g s where s: "\<sigma> = (g, s)" by (cases \<sigma>)
    show "True \<and> (\<exists>v. ?get (?step i \<sigma>) = (?get \<sigma>)[i := v] \<and> True)"
      unfolding s by (simp add: initializeIndividual_def Let_def split_beta) blast
  qed
  have all: "\<forall>i \<in> set xs. True" by simp
  have fw0: "True
     \<and> length (?get (fold ?step xs (ga, r))) = length (?get (ga, r))
     \<and> (\<forall>j < length (?get (ga, r)).
           (j \<in> set xs \<longrightarrow> True)
         \<and> (j \<notin> set xs \<longrightarrow> ?get (fold ?step xs (ga, r)) ! j = ?get (ga, r) ! j))"
    by (rule fold_writes[where I = "\<lambda>_. True" and get = ?get and Q = "\<lambda>_. True" and step = ?step
          and P = "\<lambda>_. True" and \<sigma> = "(ga, r)" and xs = xs, OF step TrueI all])
  note fw = fw0[unfolded res, THEN conjunct2, THEN conjunct2, rule_format, of j, THEN conjunct2]
  from fw j nin show ?thesis by simp
qed

lemma ga_Solve_example:
  assumes srt: "sorts_by_fitness srt"
  shows "fst (ga_Solve srt (NewGeneticSolver 4) (stream_of [0, 0, 1, 1]))"
proof -
  let ?ga = "NewGeneticSolver 4"
  let ?r = "stream_of [0, 0, 1, 1]"
  obtain p r1 where p: "Perm 4 ?r = (p, r1)" by (cases "Perm 4 ?r")
  with Perm_4_example have pv: "p = [1, 3, 0, 2]" by simp
  let ?g1 = "?ga\<lparr>ga_population := (ga_population ?ga)[0 := \<lparr>chromosome = [1, 3, 0, 2], fitness = 0\<rparr>]\<rparr>"
  have n4: "ga_n ?ga = 4" by simp
  have first: "initializeIndividual ?ga 0 ?r = (?g1, r1)"
    unfolding initializeIndividual_def n4 p pv by (simp add: copy_go_def replicate_numeral)
  obtain ga0 r0 where i: "initializePopulation ?ga ?r = (ga0, r0)"
    by (cases "initializePopulation ?ga ?r")
  have ps: "ga_populationSize ?ga = 80" by (simp add: NewGeneticSolver_def)
  have "[0 ..< ga_populationSize ?ga] = 0 # [1 ..< 80]" unfolding ps by (simp add: upt_conv_Cons)
  with i first have rest: "fold (\<lambda>i (ga, r). initializeIndividual ga i r) [1 ..< 80] (?g1, r1) = (ga0, r0)"
    by (simp add: initializePopulation_def)
  have "ga_population ga0 ! 0 = ga_population ?g1 ! 0"
    by (rule initializeIndividual_fold_keeps[OF rest]) (simp_all add: NewGeneticSolver_def)
  also have "\<dots> = \<lparr>chromosome = [1, 3, 0, 2], fitness = 0\<rparr>" by (simp add: NewGeneticSolver_def)
  finally have head: "ga_population ga0 ! 0 = \<lparr>chromosome = [1, 3, 0, 2], fitness = 0\<rparr>" .
  have pre: "ga_pre ?ga" by (rule NewGeneticSolver_pre) simp
  from initializePopulation_inv[OF pre i] have inv0: "ga_inv ga0" by simp
  from initializePopulation_params[OF i]
  have n0: "ga_n ga0 = 4" and m0: "0 < ga_maxGenerations ga0"
    by (simp_all add: ga_same_params_def NewGeneticSolver_def)
  from inv0 have "0 < length (ga_population ga0)" by (simp add: ga_inv_def ga_pre_def)
  then have mem: "ga_population ga0 ! 0 \<in> set (ga_population ga0)" by (rule nth_mem)
  have "calculateFitness ga0 [1, 3, 0, 2] = 0"
    by (simp add: calculateFitness_def n0 abs_go_def upt_conv_Cons)
  with mem head have ex: "\<exists>ind \<in> set (ga_population ga0). calculateFitness ga0 (chromosome ind) = 0"
    by (intro bexI[of _ "ga_population ga0 ! 0"]) simp_all
  have "fst (ga_singleRun srt ?ga ?r)"
    using ga_loop_finds_present[OF srt inv0 m0 ex] unfolding ga_singleRun_def i by simp
  moreover have "0 < ga_restarts ?ga" by (simp add: NewGeneticSolver_def Let_def)
  ultimately show ?thesis
    unfolding ga_Solve_def
    by (subst ga_restartLoop.simps) (simp add: split_beta)
qed

section \<open>Claims about the solutions returned\<close>

text \<open>
  Claim C1.  For every \<open>N \<ge> 1\<close> and each of the three heuristic solvers, in any state whose
  slices have the lengths the constructor gives them (the board of length \<open>N\<close>; for the
  genetic solver a population of \<open>populationSize \<ge> 2\<close> individuals), on every stream of
  draws, with any \<open>float64\<close> arithmetic and any sort that sorts by fitness: if \<open>Solve\<close> returns true, then the board \<open>GetSolution\<close> returns has length \<open>N\<close>, and
  for all columns \<open>i \<noteq> j\<close> below \<open>N\<close> it has \<open>solution[i] \<noteq> solution[j]\<close> and
  \<open>abs(solution[i] - solution[j]) \<noteq> abs(i - j)\<close>.
\<close>

theorem solve_true_gives_valid_solution:
  assumes "1 \<le> N"
    and "g_n g = N" and "length (g_board g) = N"
    and "sa_n sa = N" and "length (sa_board sa) = N"
    and "ga_n ga = N" and "2 \<le> ga_populationSize ga"
    and "length (ga_population ga) = ga_populationSize ga" and "sorts_by_fitness srt"
  shows "(greedy_Solve g r = (True, g', r1) \<longrightarrow>
            length (greedy_GetSolution g') = N
          \<and> (\<forall>i < N. \<forall>j < N. i \<noteq> j \<longrightarrow>
                greedy_GetSolution g' ! i \<noteq> greedy_GetSolution g' ! j
              \<and> abs_go (greedy_GetSolution g' ! i - greedy_GetSolution g' ! j)
                  \<noteq> abs_go (int i - int j)))
       \<and> (sa_Solve fp sa r = Some (True, sa', r2) \<longrightarrow>
            length (sa_GetSolution sa') = N
          \<and> (\<forall>i < N. \<forall>j < N. i \<noteq> j \<longrightarrow>
                sa_GetSolution sa' ! i \<noteq> sa_GetSolution sa' ! j
              \<and> abs_go (sa_GetSolution sa' ! i - sa_GetSolution sa' ! j)
                  \<noteq> abs_go (int i - int j)))
       \<and> (ga_Solve srt ga r = (True, ga', r3) \<longrightarrow>
            length (ga_GetSolution ga') = N
          \<and> (\<forall>i < N. \<forall>j < N. i \<noteq> j \<longrightarrow>
                ga_GetSolution ga' ! i \<noteq> ga_GetSolution ga' ! j
              \<and> abs_go (ga_GetSolution ga' ! i - ga_GetSolution ga' ! j)
                  \<noteq> abs_go (int i - int j)))"
proof (intro conjI impI)
  assume run: "greedy_Solve g r = (True, g', r1)"
  from assms(1,2,3) have "length (g_board g) = g_n g" "0 < g_n g" by simp_all
  from greedy_Solve_result[OF this run] assms(2)
  have ok: "board_ok N (g_solution g')" and z: "full_count N (g_solution g') = 0" by simp_all
  from ok show "length (greedy_GetSolution g') = N"
    by (simp add: greedy_GetSolution_def board_ok_def)
  from zero_count_explicit[OF z]
  show "\<forall>i < N. \<forall>j < N. i \<noteq> j \<longrightarrow>
                greedy_GetSolution g' ! i \<noteq> greedy_GetSolution g' ! j
              \<and> abs_go (greedy_GetSolution g' ! i - greedy_GetSolution g' ! j)
                  \<noteq> abs_go (int i - int j)"
    by (simp add: greedy_GetSolution_def)
next
  assume run: "sa_Solve fp sa r = Some (True, sa', r2)"
  from assms(1,4,5) have "length (sa_board sa) = sa_n sa" "0 < sa_n sa" by simp_all
  from sa_Solve_result[OF this run] assms(4)
  have ok: "board_ok N (sa_solution sa')" and z: "full_count N (sa_solution sa') = 0" by simp_all
  from ok show "length (sa_GetSolution sa') = N"
    by (simp add: sa_GetSolution_def board_ok_def)
  from zero_count_explicit[OF z]
  show "\<forall>i < N. \<forall>j < N. i \<noteq> j \<longrightarrow>
                sa_GetSolution sa' ! i \<noteq> sa_GetSolution sa' ! j
              \<and> abs_go (sa_GetSolution sa' ! i - sa_GetSolution sa' ! j)
                  \<noteq> abs_go (int i - int j)"
    by (simp add: sa_GetSolution_def)
next
  assume run: "ga_Solve srt ga r = (True, ga', r3)"
  from assms(1,6,7,8) have "ga_pre ga" by (simp add: ga_pre_def)
  from ga_Solve_result[OF assms(9) this run] assms(6)
  have ok: "board_ok N (ga_solution ga')" and z: "full_count N (ga_solution ga') = 0" by simp_all
  from ok show "length (ga_GetSolution ga') = N"
    by (simp add: ga_GetSolution_def board_ok_def)
  from zero_count_explicit[OF z]
  show "\<forall>i < N. \<forall>j < N. i \<noteq> j \<longrightarrow>
                ga_GetSolution ga' ! i \<noteq> ga_GetSolution ga' ! j
              \<and> abs_go (ga_GetSolution ga' ! i - ga_GetSolution ga' ! j)
                  \<noteq> abs_go (int i - int j)"
    by (simp add: ga_GetSolution_def)
qed

theorem solve_true_gives_valid_solution_witness:
  "fst (greedy_Solve (NewGreedySolver 4) (stream_of [1, 3, 0, 2]))
   \<and> greedy_GetSolution (fst (snd (greedy_Solve (NewGreedySolver 4) (stream_of [1, 3, 0, 2]))))
       = [1, 3, 0, 2]
   \<and> valid_solution 4 [1, 3, 0, 2]
   \<and> (\<exists>sa' r'. sa_Solve f64_run (NewSimulatedAnnealingSolver 4) (stream_of [0, 0, 1, 1])
                  = Some (True, sa', r')
         \<and> length (sa_GetSolution sa') = 4 \<and> valid_solution 4 (sa_GetSolution sa'))
   \<and> fst (ga_Solve (sort_key fitness) (NewGeneticSolver 4) (stream_of [0, 0, 1, 1]))
   \<and> length (ga_GetSolution (fst (snd (ga_Solve (sort_key fitness) (NewGeneticSolver 4) (stream_of [0, 0, 1, 1])))))
       = 4
   \<and> valid_solution 4
        (ga_GetSolution (fst (snd (ga_Solve (sort_key fitness) (NewGeneticSolver 4) (stream_of [0, 0, 1, 1])))))"
proof -
  let ?g = "NewGreedySolver 4" and ?sa = "NewSimulatedAnnealingSolver 4"
    and ?ga = "NewGeneticSolver 4"
  have h: "1 \<le> (4::nat)" "g_n ?g = 4" "length (g_board ?g) = 4"
    "sa_n ?sa = 4" "length (sa_board ?sa) = 4"
    "ga_n ?ga = 4" "2 \<le> ga_populationSize ?ga"
    "length (ga_population ?ga) = ga_populationSize ?ga" "sorts_by_fitness (sort_key fitness)"
    by (simp_all add: NewGreedySolver_def NewSimulatedAnnealingSolver_def NewGeneticSolver_def
        sorts_by_fitness_sort_key)
  note inst = solve_true_gives_valid_solution[OF h]
  let ?gr = "greedy_Solve ?g (stream_of [1, 3, 0, 2])"
  from greedy_Solve_example have gt: "fst ?gr" and gs: "g_solution (fst (snd ?gr)) = [1, 3, 0, 2]"
    by simp_all
  from gt have "?gr = (True, fst (snd ?gr), snd (snd ?gr))" by (cases ?gr) simp
  from inst[THEN conjunct1, rule_format, OF this] gs
  have gv: "valid_solution 4 [1, 3, 0, 2]"
    by (simp add: valid_solution_def abs_go_abs greedy_GetSolution_def)
  from sa_Solve_example[of f64_run] obtain sa' r' where
    sr: "sa_Solve f64_run ?sa (stream_of [0, 0, 1, 1]) = Some (True, sa', r')" by blast
  from inst[THEN conjunct2, THEN conjunct1, rule_format, OF this]
  have sv: "length (sa_GetSolution sa') = 4 \<and> valid_solution 4 (sa_GetSolution sa')"
    by (simp add: valid_solution_def abs_go_abs)
  let ?gar = "ga_Solve (sort_key fitness) ?ga (stream_of [0, 0, 1, 1])"
  have at: "fst ?gar" by (rule ga_Solve_example[OF sorts_by_fitness_sort_key])
  then have "?gar = (True, fst (snd ?gar), snd (snd ?gar))" by (cases ?gar) simp
  from inst[THEN conjunct2, THEN conjunct2, rule_format, OF this]
  have av: "length (ga_GetSolution (fst (snd ?gar))) = 4
      \<and> valid_solution 4 (ga_GetSolution (fst (snd ?gar)))"
    by (simp add: valid_solution_def abs_go_abs)
  from gt gs gv sr sv at av show ?thesis
    unfolding greedy_GetSolution_def by blast
qed

section \<open>Boards of two and three columns\<close>

lemma greedy_loop_exhausts:
  assumes "\<forall>k. iter + k < g_maxIterations g \<longrightarrow> countConflicts (fst (greedy_after k g r)) \<noteq> 0"
  shows "greedy_loop g iter r = (False, greedy_after (g_maxIterations g - iter) g r)"
  using assms
proof (induction g iter r rule: greedy_loop.induct)
  case (1 g iter r)
  show ?case
  proof (cases "iter < g_maxIterations g")
    case False
    then show ?thesis by (simp add: greedy_loop.simps[of g iter r])
  next
    case lt: True
    from "1.prems"[rule_format, of 0] lt have nz: "countConflicts g \<noteq> 0" by simp
    obtain g1 r1 where st: "greedy_step g r = (g1, r1)" by (cases "greedy_step g r")
    have m1: "g_maxIterations g1 = g_maxIterations g" using greedy_step_frame[OF st] by simp
    have "\<forall>k. (iter + 1) + k < g_maxIterations g1
        \<longrightarrow> countConflicts (fst (greedy_after k g1 r1)) \<noteq> 0"
    proof (intro allI impI)
      fix k assume "(iter + 1) + k < g_maxIterations g1"
      then have "iter + Suc k < g_maxIterations g" using m1 by simp
      from "1.prems"[rule_format, OF this] st
      show "countConflicts (fst (greedy_after k g1 r1)) \<noteq> 0" by simp
    qed
    from "1.IH"[OF lt nz st[symmetric] this]
    have "greedy_loop g1 (iter + 1) r1
        = (False, greedy_after (g_maxIterations g - (iter + 1)) g1 r1)"
      using m1 by simp
    moreover have "g_maxIterations g - iter = Suc (g_maxIterations g - (iter + 1))"
      using lt by simp
    ultimately show ?thesis
      using lt nz st by (simp add: greedy_loop.simps[of g iter r])
  qed
qed

lemma greedy_after_board_ok:
  assumes "board_ok (g_n g) (g_board g)" and "0 < g_n g"
  shows "board_ok (g_n g) (g_board (fst (greedy_after k g r)))
     \<and> g_n (fst (greedy_after k g r)) = g_n g"
  using assms
proof (induction k arbitrary: g r)
  case 0
  then show ?case by simp
next
  case (Suc k)
  obtain g1 r1 where st: "greedy_step g r = (g1, r1)" by (cases "greedy_step g r")
  have n1: "g_n g1 = g_n g" using greedy_step_frame[OF st] by simp
  have ok1: "board_ok (g_n g1) (g_board g1)"
    by (rule greedy_step_board_ok[OF Suc.prems st])
  from Suc.IH[OF ok1] Suc.prems(2) n1 st show ?case by simp
qed

lemma greedy_Solve_small:
  assumes "N = 2 \<or> N = 3"
  shows "greedy_Solve (NewGreedySolver N) r
       = (False, case randomInit (NewGreedySolver N) r of (g, r') \<Rightarrow> greedy_after 10000 g r')"
proof -
  let ?g = "NewGreedySolver N"
  have len: "length (g_board ?g) = g_n ?g" by (simp add: NewGreedySolver_def)
  have n: "g_n ?g = N" by (simp add: NewGreedySolver_def)
  have pos: "0 < N" using assms by auto
  let ?gi = "?g\<lparr>g_board := map (\<lambda>i. int (r i mod g_n ?g)) [0 ..< g_n ?g]\<rparr>"
  let ?ri = "rng_drop (g_n ?g) r"
  have ri: "randomInit ?g r = (?gi, ?ri)" by (rule randomInit_board[OF len])
  have ok0: "board_ok (g_n ?gi) (g_board ?gi)" using board_ok_random[OF pos, of r] n by simp
  have pos0: "0 < g_n ?gi" using pos n by simp
  have nz: "\<forall>k. 0 + k < g_maxIterations ?gi
       \<longrightarrow> countConflicts (fst (greedy_after k ?gi ?ri)) \<noteq> 0"
  proof (intro allI impI)
    fix k
    from greedy_after_board_ok[OF ok0 pos0, of k ?ri] n
    have "board_ok N (g_board (fst (greedy_after k ?gi ?ri)))"
      and "g_n (fst (greedy_after k ?gi ?ri)) = N" by simp_all
    with no_solution_2_3[OF assms]
    show "countConflicts (fst (greedy_after k ?gi ?ri)) \<noteq> 0"
      by (simp add: countConflicts_full)
  qed
  have "g_maxIterations ?gi = 10000" by (simp add: NewGreedySolver_def)
  with greedy_loop_exhausts[OF nz]
  have "greedy_loop ?gi 0 ?ri = (False, greedy_after 10000 ?gi ?ri)" by simp
  then show ?thesis unfolding greedy_Solve_def ri by simp
qed

lemma ga_Solve_small:
  assumes "N = 2 \<or> N = 3" and srt: "sorts_by_fitness srt"
  shows "\<not> fst (ga_Solve srt (NewGeneticSolver N) r)"
proof
  assume f: "fst (ga_Solve srt (NewGeneticSolver N) r)"
  let ?res = "ga_Solve srt (NewGeneticSolver N) r"
  from f have run: "?res = (True, fst (snd ?res), snd (snd ?res))" by (cases ?res) simp
  have pre: "ga_pre (NewGeneticSolver N)" by (rule NewGeneticSolver_pre) (use assms(1) in auto)
  from ga_Solve_result[OF srt pre run]
  have "board_ok N (ga_solution (fst (snd ?res)))" "full_count N (ga_solution (fst (snd ?res))) = 0"
    by simp_all
  with no_solution_2_3[OF assms(1)] show False by blast
qed

lemma sa_Solve_small:
  assumes "N = 2 \<or> N = 3" and "sa_Solve fp (NewSimulatedAnnealingSolver N) r = Some res"
  shows "\<not> fst res"
proof
  assume f: "fst res"
  let ?sa = "NewSimulatedAnnealingSolver N"
  from f assms(2) have run: "sa_Solve fp ?sa r = Some (True, fst (snd res), snd (snd res))"
    by (cases res) simp
  have "length (sa_board ?sa) = sa_n ?sa" "0 < sa_n ?sa"
    using assms(1) by (auto simp: NewSimulatedAnnealingSolver_def)
  from sa_Solve_result[OF this run]
  have "board_ok N (sa_solution (fst (snd res)))" "full_count N (sa_solution (fst (snd res))) = 0"
    by (simp_all add: NewSimulatedAnnealingSolver_def)
  with no_solution_2_3[OF assms(1)] show False by blast
qed

lemma sa_Solve_fair_returns:
  assumes "fair_stream N r"
  shows "\<exists>res. sa_Solve fp (NewSimulatedAnnealingSolver N) r = Some res"
  unfolding sa_Solve_def
  by (rule sa_restartLoop_terminates) (simp add: NewSimulatedAnnealingSolver_def assms)

lemma sa_Solve_hangs:
  "sa_Solve fp (NewSimulatedAnnealingSolver 2) (stream_of []) = None"
proof -
  let ?sa = "NewSimulatedAnnealingSolver 2"
  let ?r = "stream_of []"
  have p: "Perm 2 ?r = ([1, 0], ?r)"
    by (simp add: Perm_def Intn_def upt_conv_Cons replicate_numeral)
  let ?st = "?sa\<lparr>sa_board := [1, 0]\<rparr>"
  have n2: "sa_n ?sa = 2" and b2: "sa_board ?sa = [0, 0]"
    by (simp_all add: NewSimulatedAnnealingSolver_def replicate_numeral)
  have i: "smartInit ?sa ?r = (?st, ?r)"
    unfolding smartInit_def n2 p b2 by (simp add: copy_go_def)
  have c: "calculateCost ?st = 1"
    by (simp add: calculateCost_def calculateCostForBoard_def NewSimulatedAnnealingSolver_def
        abs_go_def upt_conv_Cons)
  have redraw: "sa_redrawPos2 2 0 0 ?r = None"
  proof (cases "sa_redrawPos2 2 0 0 ?r")
    case None
    then show ?thesis .
  next
    case (Some y)
    from sa_redrawPos2_diverges[OF Some] show ?thesis by simp
  qed
  have gen: "generateSmartNeighbor ?st ?r = None"
    by (simp add: generateSmartNeighbor_def NewSimulatedAnnealingSolver_def Float64_def Intn_def
        Let_def redraw)
  have l: "sa_loop fp ?st 0 (sa_initialTemp ?sa) 1 bc bb ?r = None" for bc bb
    by (rule sa_loop_stuck[OF _ _ _ gen]) (simp_all add: NewSimulatedAnnealingSolver_def)
  have run: "sa_singleRun fp ?sa ?r = None"
    unfolding sa_singleRun_def i by (simp add: Let_def c l)
  have pos: "0 < sa_restarts ?sa" by (simp add: NewSimulatedAnnealingSolver_def)
  show ?thesis
    using run pos unfolding sa_Solve_def by (subst sa_restartLoop.simps) simp
qed

lemma fair_stream_identity: "fair_stream 2 (\<lambda>i. i)"
  unfolding fair_stream_def
proof (intro allI)
  fix k v :: nat
  show "\<exists>j\<ge>k. j mod 2 \<noteq> v"
  proof (cases "k mod 2 = v")
    case True
    then have "Suc k mod 2 \<noteq> v" by presburger
    then show ?thesis by (intro exI[of _ "Suc k"]) simp
  next
    case False
    then show ?thesis by (intro exI[of _ k]) simp
  qed
qed

text \<open>
  Claim C9 (amended).  For \<open>N = 2\<close> and \<open>N = 3\<close>, on every stream of draws: the greedy solver runs
  its 10,000 iterations and returns false; the genetic solver (5 restarts of at most 200
  generations) returns false; the simulated-annealing solver (5 restarts of at most
  \<open>N * 1000\<close> iterations, each run ending when the temperature is no longer above 0.01)
  returns false whenever it returns, and it returns on every stream that does not give the
  same value of \<open>Intn N\<close> forever from some draw on.  The loops of the greedy and the genetic
  solver are bounded, so they are total functions; the swap strategy of simulated annealing
  draws the second column again until it differs from the first, and nothing bounds that.
\<close>

theorem small_boards_report_failure:
  assumes "N = 2 \<or> N = 3" and "sorts_by_fitness srt"
  shows "greedy_Solve (NewGreedySolver N) r
           = (False, case randomInit (NewGreedySolver N) r of (g, r') \<Rightarrow> greedy_after 10000 g r')
       \<and> g_maxIterations (NewGreedySolver N) = 10000
       \<and> \<not> fst (ga_Solve srt (NewGeneticSolver N) r)
       \<and> ga_restarts (NewGeneticSolver N) = 5 \<and> ga_maxGenerations (NewGeneticSolver N) = 200
       \<and> (\<forall>res. sa_Solve fp (NewSimulatedAnnealingSolver N) r = Some res \<longrightarrow> \<not> fst res)
       \<and> (fair_stream N r \<longrightarrow>
             (\<exists>sa' r'. sa_Solve fp (NewSimulatedAnnealingSolver N) r = Some (False, sa', r')))
       \<and> sa_restarts (NewSimulatedAnnealingSolver N) = 5
       \<and> sa_maxIterations (NewSimulatedAnnealingSolver N) = N * 1000
       \<and> sa_minTemp (NewSimulatedAnnealingSolver N) = f64_0_01"
proof -
  have fair: "fair_stream N r \<longrightarrow>
             (\<exists>sa' r'. sa_Solve fp (NewSimulatedAnnealingSolver N) r = Some (False, sa', r'))"
  proof
    assume "fair_stream N r"
    from sa_Solve_fair_returns[OF this, of fp] obtain res where
      res: "sa_Solve fp (NewSimulatedAnnealingSolver N) r = Some res" by blast
    from sa_Solve_small[OF assms(1) res] have "res = (False, fst (snd res), snd (snd res))"
      by (cases res) simp
    with res show "\<exists>sa' r'. sa_Solve fp (NewSimulatedAnnealingSolver N) r = Some (False, sa', r')"
      by metis
  qed
  have budgets: "g_maxIterations (NewGreedySolver N) = 10000"
    "ga_restarts (NewGeneticSolver N) = 5" "ga_maxGenerations (NewGeneticSolver N) = 200"
    "sa_restarts (NewSimulatedAnnealingSolver N) = 5"
    "sa_maxIterations (NewSimulatedAnnealingSolver N) = N * 1000"
    "sa_minTemp (NewSimulatedAnnealingSolver N) = f64_0_01"
    by (simp_all add: NewGreedySolver_def NewGeneticSolver_def NewSimulatedAnnealingSolver_def)
  from greedy_Solve_small[OF assms(1), of r] ga_Solve_small[OF assms, of r]
    sa_Solve_small[OF assms(1), of fp r] fair budgets
  show ?thesis by blast
qed

text \<open>
  The claim as it stands fails for simulated annealing: on the stream whose draws are all 0
  the first run starts from the board \<open>[1,0]\<close> with one conflict, takes the swap strategy,
  draws column 0 twice and then column 0 for ever.
\<close>

theorem small_boards_report_failure_counterexample:
  "sa_Solve f64_run (NewSimulatedAnnealingSolver 2) (stream_of []) = None"
  by (rule sa_Solve_hangs)

theorem small_boards_report_failure_witness:
  "\<not> fst (greedy_Solve (NewGreedySolver 2) (\<lambda>i. i))
   \<and> \<not> fst (ga_Solve (sort_key fitness) (NewGeneticSolver 2) (\<lambda>i. i))
   \<and> fair_stream 2 (\<lambda>i. i)
   \<and> (\<exists>sa' r'. sa_Solve f64_run (NewSimulatedAnnealingSolver 2) (\<lambda>i. i) = Some (False, sa', r'))"
proof -
  have h: "(2::nat) = 2 \<or> (2::nat) = 3" by simp
  note inst = small_boards_report_failure[OF h sorts_by_fitness_sort_key, of "\<lambda>i. i" f64_run]
  from inst have g: "\<not> fst (greedy_Solve (NewGreedySolver 2) (\<lambda>i. i))" by simp
  from inst have a: "\<not> fst (ga_Solve (sort_key fitness) (NewGeneticSolver 2) (\<lambda>i. i))" by blast
  from inst fair_stream_identity
  have s: "\<exists>sa' r'. sa_Solve f64_run (NewSimulatedAnnealingSolver 2) (\<lambda>i. i) = Some (False, sa', r')"
    by blast
  from g a fair_stream_identity s show ?thesis by blast
qed

section \<open>The printed board\<close>

lemma greedy_Solve_example_state:
  "fst (snd (greedy_Solve (NewGreedySolver 4) (stream_of [1, 3, 0, 2])))
     = (NewGreedySolver 4)\<lparr>g_board := [1, 3, 0, 2], g_solution := [1, 3, 0, 2], g_solved := True\<rparr>"
proof -
  let ?g = "NewGreedySolver 4"
  have len: "length (g_board ?g) = g_n ?g" by (simp add: NewGreedySolver_def)
  have b: "map (\<lambda>i. int (stream_of [1, 3, 0, 2] i mod g_n ?g)) [0 ..< g_n ?g] = [1, 3, 0, 2]"
    by (simp add: NewGreedySolver_def stream_of_def upt_conv_Cons)
  have c: "countConflicts (?g\<lparr>g_board := [1, 3, 0, 2]\<rparr>) = 0"
    by (simp add: countConflicts_def NewGreedySolver_def abs_go_def upt_conv_Cons)
  have m: "g_maxIterations ?g = 10000"
    by (simp add: NewGreedySolver_def)
  have n: "g_n ?g = 4" by (simp add: NewGreedySolver_def)
  show ?thesis
    unfolding greedy_Solve_def randomInit_board[OF len] b
    by (simp add: greedy_loop.simps[of "?g\<lparr>g_board := [1, 3, 0, 2]\<rparr>" 0] c m n)
qed

text \<open>
  Claim C10.  \<open>NewGreedySolver(4).Solve()\<close> on the draws 1, 3, 0, 2 returns true with the
  solution \<open>[1,3,0,2]\<close>, and \<open>PrintSolution\<close> then writes the header, four lines of four cells
  and an empty line, and leaves the solver as it was.  Line \<open>i\<close> has its \<open>Q\<close> at position
  \<open>solution[i]\<close>: the queen of column 0, which stands on row 1, is printed on line 0 at
  position 1, and the cell on line 1 at position 0 is a dot.
\<close>

theorem print_solution_transposes:
  "fst (greedy_Solve (NewGreedySolver 4) (stream_of [1, 3, 0, 2]))
   \<and> greedy_GetSolution (fst (snd (greedy_Solve (NewGreedySolver 4) (stream_of [1, 3, 0, 2]))))
       = [1, 3, 0, 2]
   \<and> greedy_PrintSolution (fst (snd (greedy_Solve (NewGreedySolver 4) (stream_of [1, 3, 0, 2]))))
       = Some (fst (snd (greedy_Solve (NewGreedySolver 4) (stream_of [1, 3, 0, 2]))),
               ''Greedy Search Solution for N=4:'' @ [newline]
               @ ''. Q . . '' @ [newline]
               @ ''. . . Q '' @ [newline]
               @ ''Q . . . '' @ [newline]
               @ ''. . Q . '' @ [newline]
               @ [newline])
   \<and> grid_cell (snd (the (greedy_PrintSolution
          (fst (snd (greedy_Solve (NewGreedySolver 4) (stream_of [1, 3, 0, 2]))))))) 1 0 = ''. ''
   \<and> grid_cell (snd (the (greedy_PrintSolution
          (fst (snd (greedy_Solve (NewGreedySolver 4) (stream_of [1, 3, 0, 2]))))))) 0 1 = ''Q ''"
proof -
  let ?g' = "fst (snd (greedy_Solve (NewGreedySolver 4) (stream_of [1, 3, 0, 2])))"
  let ?text = "''Greedy Search Solution for N=4:'' @ [newline]
               @ ''. Q . . '' @ [newline]
               @ ''. . . Q '' @ [newline]
               @ ''Q . . . '' @ [newline]
               @ ''. . Q . '' @ [newline]
               @ [newline]"
  note st = greedy_Solve_example_state
  have d: "decimal 4 = ''4''" by (simp add: decimal.simps digit_def)
  have p: "greedy_PrintSolution ?g' = Some (?g', ?text)"
    unfolding st
    by (simp add: greedy_PrintSolution_def NewGreedySolver_def print_grid_def upt_conv_Cons d)
  have c1: "grid_cell ?text 1 0 = ''. ''" and c2: "grid_cell ?text 0 1 = ''Q ''"
    by (simp_all add: grid_cell_def)
  from greedy_Solve_example p c1 c2 show ?thesis
    by (simp add: greedy_GetSolution_def)
qed

section \<open>The cached fitness under stagnation\<close>

text \<open>
  Claim C6.  The stagnation step of a generation (\<open>generationsWithoutImprovement > 20\<close>) on a
  population as \<open>evaluatePopulation\<close> leaves it for \<open>N = 2\<close>: 80 individuals \<open>[1,0]\<close>, each with its
  fitness 1.  The step re-initializes the individuals 64 to 79, which stores the fitness 0
  with the new chromosome, and \<open>createNewGeneration\<close> follows at once: a tournament whose
  second draw is 64 compares that stored 0 with the fitness 1 of individual 0 and selects
  individual 64, whose chromosome \<open>[1,0]\<close> has one conflict.
\<close>

theorem stagnation_reads_stale_fitness:
  "fitness (ga_population (fst (ga_adapt
        ((NewGeneticSolver 2)\<lparr>ga_population := replicate 80 \<lparr>chromosome = [1, 0], fitness = 1\<rparr>\<rparr>)
        21 (stream_of []))) ! 64) = 0
   \<and> chromosome (ga_population (fst (ga_adapt
        ((NewGeneticSolver 2)\<lparr>ga_population := replicate 80 \<lparr>chromosome = [1, 0], fitness = 1\<rparr>\<rparr>)
        21 (stream_of []))) ! 64) = [1, 0]
   \<and> calculateFitness (NewGeneticSolver 2) [1, 0] = 1
   \<and> ga_population (fst (ga_adapt
        ((NewGeneticSolver 2)\<lparr>ga_population := replicate 80 \<lparr>chromosome = [1, 0], fitness = 1\<rparr>\<rparr>)
        21 (stream_of []))) ! 0 = \<lparr>chromosome = [1, 0], fitness = 1\<rparr>
   \<and> fst (tournamentSelection (fst (ga_adapt
        ((NewGeneticSolver 2)\<lparr>ga_population := replicate 80 \<lparr>chromosome = [1, 0], fitness = 1\<rparr>\<rparr>)
        21 (stream_of []))) (stream_of [0, 64, 0, 0, 0]))
       = \<lparr>chromosome = [1, 0], fitness = 0\<rparr>"
proof -
  let ?ga = "(NewGeneticSolver 2)\<lparr>ga_population := replicate 80 \<lparr>chromosome = [1, 0], fitness = 1\<rparr>\<rparr>"
  have p: "Perm 2 (stream_of []) = ([1, 0], stream_of [])"
    by (simp add: Perm_def Intn_def upt_conv_Cons replicate_numeral)
  have ii: "initializeIndividual g i (stream_of [])
      = (g\<lparr>ga_population := (ga_population g)[i := \<lparr>chromosome = [1, 0], fitness = 0\<rparr>]\<rparr>, stream_of [])"
    if "ga_n g = 2" for g i
    unfolding initializeIndividual_def that p by (simp add: copy_go_def replicate_numeral)
  have fold_ii: "fold (\<lambda>i (ga, r). initializeIndividual ga i r) xs (g, stream_of [])
      = (g\<lparr>ga_population := fold (\<lambda>i pop. pop[i := \<lparr>chromosome = [1, 0], fitness = 0\<rparr>]) xs
                                 (ga_population g)\<rparr>, stream_of [])"
    if "ga_n g = 2" for g xs
    using that by (induction xs arbitrary: g) (simp_all add: ii)
  let ?gm = "?ga\<lparr>ga_mutationRate := f64_0_3\<rparr>"
  have g20: "(21::nat) > 20" by simp
  have e: "(80::nat) * 4 div 5 = 64" by simp
  have n2: "ga_n ?gm = 2" by simp
  have sz: "ga_populationSize ?ga * 4 div 5 = 64" "ga_populationSize ?ga = 80"
    by (simp_all add: NewGeneticSolver_def)
  have pm: "ga_population ?gm = replicate 80 \<lparr>chromosome = [1, 0], fitness = 1\<rparr>" by simp
  have "ga_adapt ?ga 21 (stream_of [])
      = fold (\<lambda>i (ga, r). initializeIndividual ga i r) [64 ..< 80] (?gm, stream_of [])"
    unfolding ga_adapt_def sz(2) using g20 e by (simp only: if_True)
  then have ad: "ga_adapt ?ga 21 (stream_of [])
      = (?gm\<lparr>ga_population := fold (\<lambda>i pop. pop[i := \<lparr>chromosome = [1, 0], fitness = 0\<rparr>])
                                 [64 ..< 80] (replicate 80 \<lparr>chromosome = [1, 0], fitness = 1\<rparr>)\<rparr>,
         stream_of [])"
    by (simp only: fold_ii[OF n2] pm)
  let ?pop = "fold (\<lambda>i pop. pop[i := \<lparr>chromosome = [1, 0], fitness = 0\<rparr>])
                 [64 ..< 80] (replicate 80 \<lparr>chromosome = [1, 0], fitness = 1\<rparr>)"
  have keep: "fold (\<lambda>i pop. pop[i := v]) xs pop ! j = pop ! j" if "j \<notin> set xs"
    for xs j v and pop :: "Individual list"
    using that by (induction xs arbitrary: pop) simp_all
  have hit: "fold (\<lambda>i pop. pop[i := v]) xs pop ! j = v" if "j \<in> set xs" "j < length pop"
    for xs j v and pop :: "Individual list"
    using that
  proof (induction xs arbitrary: pop)
    case Nil
    then show ?case by simp
  next
    case (Cons x xs)
    show ?case
    proof (cases "j \<in> set xs")
      case True
      with Cons.IH[of "pop[x := v]"] Cons.prems(2) show ?thesis by simp
    next
      case False
      with Cons.prems have "j = x" by simp
      with keep[OF False, of v "pop[x := v]"] Cons.prems(2) show ?thesis by simp
    qed
  qed
  have p64: "?pop ! 64 = \<lparr>chromosome = [1, 0], fitness = 0\<rparr>"
    by (rule hit) (simp_all del: upt.simps)
  have "?pop ! 0 = replicate 80 \<lparr>chromosome = [1, 0], fitness = 1\<rparr> ! 0"
    by (rule keep) simp
  then have p0: "?pop ! 0 = \<lparr>chromosome = [1, 0], fitness = 1\<rparr>"
    by (simp only: nth_replicate zero_less_numeral)
  have cf: "calculateFitness (NewGeneticSolver 2) [1, 0] = 1"
    by (simp add: calculateFitness_def abs_go_def upt_conv_Cons)
  have ts: "fst (tournamentSelection (fst (ga_adapt ?ga 21 (stream_of []))) (stream_of [0, 64, 0, 0, 0]))
       = \<lparr>chromosome = [1, 0], fitness = 0\<rparr>"
  proof -
    let ?g1 = "?gm\<lparr>ga_population := ?pop\<rparr>"
    have ps: "ga_populationSize ?g1 = 80" by (simp add: NewGeneticSolver_def)
    have pp: "ga_population ?g1 = ?pop" by simp
    have "fst (tournamentSelection ?g1 (stream_of [0, 64, 0, 0, 0]))
        = \<lparr>chromosome = [1, 0], fitness = 0\<rparr>"
      unfolding tournamentSelection_def ps pp Let_def
      by (simp add: Intn_def upt_conv_Cons p64 p0 del: upt.simps)
    then show ?thesis unfolding ad by (simp only: fst_conv)
  qed
  have sel: "ga_population (?gm\<lparr>ga_population := ?pop\<rparr>) = ?pop" by simp
  have r64: "ga_population (fst (ga_adapt ?ga 21 (stream_of []))) ! 64
      = \<lparr>chromosome = [1, 0], fitness = 0\<rparr>"
    unfolding ad fst_conv sel by (rule p64)
  have r0: "ga_population (fst (ga_adapt ?ga 21 (stream_of []))) ! 0
      = \<lparr>chromosome = [1, 0], fitness = 1\<rparr>"
    unfolding ad fst_conv sel by (rule p0)
  from r64 r0 cf ts show ?thesis by simp
qed

end
